theory Spec2Isabelle
  imports Complex_Main "HOL-Library.AList" "HOL-Library.Sublist" "HOL-Library.Multiset"
begin

section \<open>cruncher.py: syscall status and application usage aggregation\<close>

text \<open>
  A shallow embedding of \<^verbatim>\<open>src/cruncher.py\<close>. The three global dictionaries
  (\<^verbatim>\<open>apps\<close>, \<^verbatim>\<open>syscalls\<close>, \<^verbatim>\<open>undefined_syscalls\<close>) are the fields of an explicit
  state record. A Python dictionary is an association list in insertion order, written
  with \<^const>\<open>AList.update\<close> (an existing key keeps its position, a new key goes
  last) and read with \<^const>\<open>map_of\<close>. An exception is a value of type \<open>exn\<close>
  on the left of a sum; it ends the run, as nothing in the program catches it except
  the \<^verbatim>\<open>ValueError\<close> of the id column.
\<close>

subsection \<open>Exceptions and dictionary access\<close>

datatype exn = KeyError string | ValueError | OverflowError | IndexError

text \<open>\<^verbatim>\<open>d[k]\<close>: the value stored under \<open>k\<close>, or \<^verbatim>\<open>KeyError\<close>.\<close>

definition dict_get :: "(string \<times> 'v) list \<Rightarrow> string \<Rightarrow> exn + 'v" where
  "dict_get d k = (case map_of d k of None \<Rightarrow> Inl (KeyError k) | Some v \<Rightarrow> Inr v)"

text \<open>Sequencing: the first exception raised ends the computation.\<close>

fun bind_exn :: "exn + 'a \<Rightarrow> ('a \<Rightarrow> exn + 'b) \<Rightarrow> exn + 'b" where
  "bind_exn (Inl e) f = Inl e"
| "bind_exn (Inr x) f = f x"

text \<open>A \<^verbatim>\<open>for\<close> loop whose body updates the state or raises.\<close>

fun for_each :: "('a \<Rightarrow> 's \<Rightarrow> exn + 's) \<Rightarrow> 'a list \<Rightarrow> 's \<Rightarrow> exn + 's" where
  "for_each body [] st = Inr st"
| "for_each body (x # xs) st = bind_exn (body x st) (for_each body xs)"

text \<open>\<^verbatim>\<open>sub in s\<close> on two strings: \<open>sub\<close> occurs in \<open>s\<close> as a contiguous,
  case-sensitive substring. The search tries every start position from the left.\<close>

fun starts_with :: "string \<Rightarrow> string \<Rightarrow> bool" where
  "starts_with s [] = True"
| "starts_with [] (c # sub) = False"
| "starts_with (d # s) (c # sub) = (d = c \<and> starts_with s sub)"

fun py_in :: "string \<Rightarrow> string \<Rightarrow> bool" where
  "py_in sub [] = (sub = [])"
| "py_in sub (d # s) = (starts_with (d # s) sub \<or> py_in sub s)"

subsection \<open>Status normalisation (process\_syscall\_spreadsheet, lines 170--187)\<close>

text \<open>The \<^verbatim>\<open>if/elif\<close> chain applied to the status cell of a row, in the order of
  the source. A string that matches no branch is left as it is.\<close>

definition normalize_status :: "string \<Rightarrow> string" where
  "normalize_status status_str =
     (if length status_str = 0 then ''NOT_IMPL''
      else if py_in ''incomplete'' status_str then ''INCOMPLETE''
      else if py_in ''registration missing'' status_str then ''REG_MISS''
      else if py_in ''stubbed'' status_str then ''STUBBED''
      else if py_in ''planned'' status_str then ''PLANNED''
      else if py_in ''progress'' status_str then ''IN_PROGRESS''
      else if py_in ''broken'' status_str then ''BROKEN''
      else if py_in ''okay'' status_str then ''OKAY''
      else status_str)"

text \<open>The normaliser as spec.md (section 4.1) words it: an ordered list of
  (trigger, status) rules, the first rule whose trigger the text contains wins, and a
  text that matches no rule is kept. Containment is stated with \<^const>\<open>sublist\<close>,
  independently of the search above.\<close>

definition spec_status_rules :: "(string \<times> string) list" where
  "spec_status_rules =
     [(''incomplete'', ''INCOMPLETE''),
      (''registration missing'', ''REG_MISS''),
      (''stubbed'', ''STUBBED''),
      (''planned'', ''PLANNED''),
      (''progress'', ''IN_PROGRESS''),
      (''broken'', ''BROKEN''),
      (''okay'', ''OKAY'')]"

definition spec_normalize :: "string \<Rightarrow> string" where
  "spec_normalize raw =
     (if raw = [] then ''NOT_IMPL''
      else case find (\<lambda>rule. sublist (fst rule) raw) spec_status_rules of
             Some rule \<Rightarrow> snd rule
           | None \<Rightarrow> raw)"

text \<open>The nine keys of an application's bucket dictionary, in the order of the
  dictionary literal (lines 84--94).\<close>

definition status_keys :: "string list" where
  "status_keys = [''OKAY'', ''ABSENT'', ''NOT_IMPL'', ''INCOMPLETE'', ''REG_MISS'',
                  ''STUBBED'', ''BROKEN'', ''IN_PROGRESS'', ''PLANNED'']"

subsection \<open>The spreadsheet (process\_syscall\_spreadsheet, lines 137--189)\<close>

text \<open>
  What \<^verbatim>\<open>worksheet.cell_value\<close> returns for the id column: a string for a text
  (or empty) cell, a float for a number cell, an integer for a boolean or error cell.
  A float is a rational number, an infinity or a NaN; no arithmetic is done on it.
  The name and status columns are text cells.
\<close>

datatype pyfloat = Finite rat | PosInf | NegInf | NaN

datatype cell_value = XL_TEXT string | XL_NUMBER pyfloat | XL_INT int

record sheet_row =
  col_rax :: cell_value
  col_name :: string
  col_status :: string

text \<open>
  The builtin \<^verbatim>\<open>int(x)\<close>. On a float it truncates towards zero, raises
  \<^verbatim>\<open>ValueError\<close> on a NaN and \<^verbatim>\<open>OverflowError\<close> on an infinity. On a string it
  returns the integer the string denotes or raises \<^verbatim>\<open>ValueError\<close>; which strings
  denote an integer is Python's business, so the parser is the parameter
  \<open>str_to_int\<close> (\<open>None\<close> when the string is refused).
\<close>

definition py_int :: "(string \<Rightarrow> int option) \<Rightarrow> cell_value \<Rightarrow> exn + int" where
  "py_int str_to_int x =
     (case x of
        XL_TEXT s \<Rightarrow> (case str_to_int s of None \<Rightarrow> Inl ValueError | Some n \<Rightarrow> Inr n)
      | XL_NUMBER (Finite q) \<Rightarrow> Inr (if 0 \<le> q then \<lfloor>q\<rfloor> else \<lceil>q\<rceil>)
      | XL_NUMBER NaN \<Rightarrow> Inl ValueError
      | XL_NUMBER PosInf \<Rightarrow> Inl OverflowError
      | XL_NUMBER NegInf \<Rightarrow> Inl OverflowError
      | XL_INT n \<Rightarrow> Inr n)"

text \<open>Lines 160--165: the \<^verbatim>\<open>try\<close> around the conversion of the id cell. Only
  \<^verbatim>\<open>ValueError\<close> is caught.\<close>

definition parse_rax :: "(string \<Rightarrow> int option) \<Rightarrow> cell_value \<Rightarrow> exn + int" where
  "parse_rax str_to_int x =
     (case py_int str_to_int x of
        Inr n \<Rightarrow> Inr n
      | Inl ValueError \<Rightarrow> Inr (- 1)
      | Inl e \<Rightarrow> Inl e)"

text \<open>\<^verbatim>\<open>data_sheet\<close>: the three column lists.\<close>

record data_sheet =
  ds_rax :: "int list"
  ds_name :: "string list"
  ds_status :: "string list"

definition sheet_row_step ::
  "(string \<Rightarrow> int option) \<Rightarrow> sheet_row \<Rightarrow> data_sheet \<Rightarrow> exn + data_sheet" where
  "sheet_row_step str_to_int row ds =
     bind_exn (parse_rax str_to_int (col_rax row)) (\<lambda>n.
       Inr \<lparr>ds_rax = ds_rax ds @ [n],
            ds_name = ds_name ds @ [col_name row],
            ds_status = ds_status ds @ [normalize_status (col_status row)]\<rparr>)"

text \<open>The worksheet is the list of its rows, the header first;
  \<^verbatim>\<open>range(1, worksheet.nrows)\<close> skips the header.\<close>

definition process_syscall_spreadsheet ::
  "(string \<Rightarrow> int option) \<Rightarrow> sheet_row list \<Rightarrow> exn + data_sheet" where
  "process_syscall_spreadsheet str_to_int worksheet =
     for_each (sheet_row_step str_to_int) (drop 1 worksheet)
       \<lparr>ds_rax = [], ds_name = [], ds_status = []\<rparr>"

subsection \<open>The three dictionaries\<close>

record syscall_record =
  sc_id :: int
  sc_name :: string
  sc_status :: string
  sc_apps :: "string list"

record undefined_record =
  us_name :: string
  us_apps :: "string list"

type_synonym buckets = "(string \<times> string list) list"

record state =
  apps :: "(string \<times> buckets) list"
  syscalls :: "(string \<times> syscall_record) list"
  undefined_syscalls :: "(string \<times> undefined_record) list"

text \<open>The dictionary literal of lines 84--94.\<close>

definition empty_buckets :: buckets where
  "empty_buckets =
     [(''OKAY'', []), (''ABSENT'', []), (''NOT_IMPL'', []), (''INCOMPLETE'', []),
      (''REG_MISS'', []), (''STUBBED'', []), (''BROKEN'', []), (''IN_PROGRESS'', []),
      (''PLANNED'', [])]"

subsection \<open>One application (process\_application\_json, lines 61--118)\<close>

text \<open>
  The parsed JSON document: each of the two sections is absent (\<open>None\<close>) or present;
  a present section has a \<^verbatim>\<open>"system_calls"\<close> entry or not (\<open>Some None\<close>), and the
  entry is iterated as a sequence of symbols.
\<close>

record json_data =
  static_data :: "string list option option"
  dynamic_data :: "string list option option"

text \<open>\<^verbatim>\<open>local_set.add(symbol)\<close>; the set is kept as a list without duplicates.\<close>

definition set_add :: "string \<Rightarrow> string list \<Rightarrow> string list" where
  "set_add symbol local_set =
     (if symbol \<in> set local_set then local_set else local_set @ [symbol])"

definition add_section :: "string list option option \<Rightarrow> string list \<Rightarrow> exn + string list" where
  "add_section section local_set =
     (case section of
        None \<Rightarrow> Inr local_set
      | Some None \<Rightarrow> Inl (KeyError ''system_calls'')
      | Some (Some data) \<Rightarrow> Inr (fold set_add data local_set))"

text \<open>Lines 69--81.\<close>

definition collect_symbols :: "json_data \<Rightarrow> exn + string list" where
  "collect_symbols jd =
     bind_exn (add_section (static_data jd) []) (add_section (dynamic_data jd))"

text \<open>Lines 96--100, the body of the first loop.\<close>

definition place_symbol :: "string \<Rightarrow> string \<Rightarrow> state \<Rightarrow> exn + state" where
  "place_symbol app_name symbol st =
     bind_exn
       (if symbol \<in> set (map fst (syscalls st))
        then bind_exn (dict_get (syscalls st) symbol) (\<lambda>r. Inr (sc_status r))
        else Inr ''ABSENT'')
       (\<lambda>status.
          bind_exn (dict_get (apps st) app_name) (\<lambda>b.
          bind_exn (dict_get b status) (\<lambda>l.
            Inr (st\<lparr>apps :=
              AList.update app_name (AList.update status (l @ [symbol]) b) (apps st)\<rparr>))))"

text \<open>Lines 105--109: the linear search through the keys of \<^verbatim>\<open>syscalls\<close>.\<close>

fun search_keys :: "string \<Rightarrow> string list \<Rightarrow> bool" where
  "search_keys symbol [] = False"
| "search_keys symbol (s # rest) = (if s = symbol then True else search_keys symbol rest)"

text \<open>Lines 105--118, the body of the second loop.\<close>

definition record_app :: "string \<Rightarrow> string \<Rightarrow> state \<Rightarrow> exn + state" where
  "record_app app_name symbol st =
     (if search_keys symbol (map fst (syscalls st))
      then bind_exn (dict_get (syscalls st) symbol) (\<lambda>r.
             Inr (st\<lparr>syscalls :=
               AList.update symbol (r\<lparr>sc_apps := sc_apps r @ [app_name]\<rparr>) (syscalls st)\<rparr>))
      else
        (let undef =
           (if symbol \<notin> set (map fst (undefined_syscalls st))
            then AList.update symbol \<lparr>us_name = symbol, us_apps = []\<rparr> (undefined_syscalls st)
            else undefined_syscalls st)
         in bind_exn (dict_get undef symbol) (\<lambda>u.
              Inr (st\<lparr>undefined_syscalls :=
                AList.update symbol (u\<lparr>us_apps := us_apps u @ [app_name]\<rparr>) undef\<rparr>))))"

text \<open>
  Python leaves the iteration order of a set open. The parameter \<open>iter\<close> gives the
  order in which \<^verbatim>\<open>local_set\<close> is walked; both loops walk the same, unmodified set,
  so they see the same order.
\<close>

definition process_application_json ::
  "(string list \<Rightarrow> string list) \<Rightarrow> string \<Rightarrow> json_data \<Rightarrow> state \<Rightarrow> exn + state" where
  "process_application_json iter app_name jd st =
     bind_exn (collect_symbols jd) (\<lambda>local_set.
     bind_exn
       (for_each (place_symbol app_name) (iter local_set)
          (st\<lparr>apps := AList.update app_name empty_buckets (apps st)\<rparr>))
       (for_each (record_app app_name) (iter local_set)))"

subsection \<open>All applications (walk\_application\_json\_folder, lines 121--134)\<close>

text \<open>The folder is the list of its files in the order they are visited, each with
  the document \<^verbatim>\<open>json.load\<close> returns for it.\<close>

definition walk_step ::
  "(string list \<Rightarrow> string list) \<Rightarrow> string \<times> json_data \<Rightarrow> state \<Rightarrow> exn + state" where
  "walk_step iter entry st =
     (if suffix ''.json'' (fst entry)
      then process_application_json iter
             (take (length (fst entry) - 5) (fst entry)) (snd entry) st
      else Inr st)"

definition walk_application_json_folder ::
  "(string list \<Rightarrow> string list) \<Rightarrow> (string \<times> json_data) list \<Rightarrow> state \<Rightarrow> exn + state" where
  "walk_application_json_folder iter files st = for_each (walk_step iter) files st"

subsection \<open>Aggregation (main, lines 238--251)\<close>

text \<open>Lines 243--249: one \<^verbatim>\<open>syscalls\<close> entry per index of the id column. An index
  outside a list raises \<^verbatim>\<open>IndexError\<close>.\<close>

definition py_index :: "'a list \<Rightarrow> nat \<Rightarrow> exn + 'a" where
  "py_index xs i = (if i < length xs then Inr (xs ! i) else Inl IndexError)"

definition add_syscall ::
  "data_sheet \<Rightarrow> nat \<Rightarrow> (string \<times> syscall_record) list
     \<Rightarrow> exn + (string \<times> syscall_record) list" where
  "add_syscall ds i d =
     bind_exn (py_index (ds_rax ds) i) (\<lambda>rax.
     bind_exn (py_index (ds_name ds) i) (\<lambda>name.
     bind_exn (py_index (ds_status ds) i) (\<lambda>status.
       Inr (AList.update name
              \<lparr>sc_id = rax, sc_name = name, sc_status = status, sc_apps = []\<rparr> d))))"

definition build_syscalls :: "data_sheet \<Rightarrow> exn + (string \<times> syscall_record) list" where
  "build_syscalls ds = for_each (add_syscall ds) [0 ..< length (ds_rax ds)] []"

text \<open>Lines 238--251: the state after the spreadsheet and every application file
  have been read. The three dictionaries start empty (lines 41, 49, 58).\<close>

definition aggregate ::
  "(string \<Rightarrow> int option) \<Rightarrow> (string list \<Rightarrow> string list) \<Rightarrow> sheet_row list
     \<Rightarrow> (string \<times> json_data) list \<Rightarrow> exn + state" where
  "aggregate str_to_int iter worksheet files =
     bind_exn (process_syscall_spreadsheet str_to_int worksheet) (\<lambda>ds.
     bind_exn (build_syscalls ds) (\<lambda>d.
       walk_application_json_folder iter files
         \<lparr>apps = [], syscalls = d, undefined_syscalls = []\<rparr>))"

subsection \<open>The reports (print\_apps, print\_syscalls, lines 192--222)\<close>

text \<open>\<^verbatim>\<open>str(n)\<close> of a length: its decimal digits.\<close>

definition digit_char :: "nat \<Rightarrow> char" where
  "digit_char d = ''0123456789'' ! d"

function str_nat :: "nat \<Rightarrow> string" where
  "str_nat n = (if n < 10 then [digit_char n] else str_nat (n div 10) @ [digit_char (n mod 10)])"
  by pat_completeness auto
termination
  by (relation "measure (\<lambda>n. n)") auto

declare str_nat.simps [simp del]

text \<open>\<^verbatim>\<open>"{},{},...".format(...)\<close>: the fields joined by commas.\<close>

fun csv :: "string list \<Rightarrow> string" where
  "csv [] = []"
| "csv [x] = x"
| "csv (x # y # ys) = x @ '','' @ csv (y # ys)"

text \<open>Runs \<open>f\<close> over a list from the left and collects the results; the first
  exception ends it.\<close>

fun map_exn :: "('a \<Rightarrow> exn + 'b) \<Rightarrow> 'a list \<Rightarrow> exn + 'b list" where
  "map_exn f [] = Inr []"
| "map_exn f (x # xs) = bind_exn (f x) (\<lambda>y. bind_exn (map_exn f xs) (\<lambda>ys. Inr (y # ys)))"

text \<open>\<^verbatim>\<open>len(apps[a][k])\<close>.\<close>

definition bucket_len :: "(string \<times> buckets) list \<Rightarrow> string \<Rightarrow> string \<Rightarrow> exn + nat" where
  "bucket_len d a k =
     bind_exn (dict_get d a) (\<lambda>b. bind_exn (dict_get b k) (\<lambda>l. Inr (length l)))"

definition apps_header :: string where
  "apps_header = csv [''app'', ''total'', ''okay'', ''not_impl'', ''reg_miss'', ''incomplete'',
                      ''stubbed'', ''planned'', ''broken'', ''in_progress'', ''absent'']"

text \<open>Lines 199--211: the counts of one application, its total, and its row.\<close>

definition app_total :: "nat \<Rightarrow> nat \<Rightarrow> nat \<Rightarrow> nat \<Rightarrow> nat \<Rightarrow> nat \<Rightarrow> nat \<Rightarrow> nat \<Rightarrow> nat" where
  "app_total okay not_impl incomplete reg_miss stubbed planned in_progress broken =
     okay + not_impl + incomplete + reg_miss + stubbed + planned + in_progress + broken"

definition app_row :: "(string \<times> buckets) list \<Rightarrow> string \<Rightarrow> exn + string" where
  "app_row d a =
     bind_exn (bucket_len d a ''OKAY'') (\<lambda>okay.
     bind_exn (bucket_len d a ''NOT_IMPL'') (\<lambda>not_impl.
     bind_exn (bucket_len d a ''INCOMPLETE'') (\<lambda>incomplete.
     bind_exn (bucket_len d a ''REG_MISS'') (\<lambda>reg_miss.
     bind_exn (bucket_len d a ''STUBBED'') (\<lambda>stubbed.
     bind_exn (bucket_len d a ''PLANNED'') (\<lambda>planned.
     bind_exn (bucket_len d a ''IN_PROGRESS'') (\<lambda>in_progress.
     bind_exn (bucket_len d a ''BROKEN'') (\<lambda>broken.
     bind_exn (bucket_len d a ''ABSENT'') (\<lambda>absent.
       Inr (csv [a,
                 str_nat (app_total okay not_impl incomplete reg_miss stubbed planned
                            in_progress broken),
                 str_nat okay, str_nat not_impl, str_nat reg_miss, str_nat incomplete,
                 str_nat stubbed, str_nat planned, str_nat broken, str_nat in_progress,
                 str_nat absent]))))))))))"

text \<open>The lines \<^verbatim>\<open>print_apps\<close> writes.\<close>

definition print_apps :: "state \<Rightarrow> exn + string list" where
  "print_apps st =
     bind_exn (map_exn (app_row (apps st)) (map fst (apps st))) (\<lambda>rows.
       Inr (apps_header # rows))"

definition syscall_row :: "(string \<times> syscall_record) list \<Rightarrow> string \<Rightarrow> exn + string" where
  "syscall_row d s =
     bind_exn (dict_get d s) (\<lambda>r. Inr (csv [s, sc_status r, str_nat (length (sc_apps r))]))"

definition undefined_row :: "(string \<times> undefined_record) list \<Rightarrow> string \<Rightarrow> exn + string" where
  "undefined_row d s =
     bind_exn (dict_get d s) (\<lambda>u. Inr (csv [s, ''ABSENT'', str_nat (length (us_apps u))]))"

text \<open>The lines \<^verbatim>\<open>print_syscalls\<close> writes.\<close>

definition print_syscalls :: "state \<Rightarrow> exn + string list" where
  "print_syscalls st =
     bind_exn (map_exn (syscall_row (syscalls st)) (map fst (syscalls st))) (\<lambda>rows.
     bind_exn (map_exn (undefined_row (undefined_syscalls st))
                 (map fst (undefined_syscalls st))) (\<lambda>undefined_rows.
       Inr (csv [''syscall'', ''status'', ''num_apps''] # rows @ undefined_rows)))"

text \<open>Lines 225--256: what a run prints, given the two flags.\<close>

definition main ::
  "bool \<Rightarrow> bool \<Rightarrow> (string \<Rightarrow> int option) \<Rightarrow> (string list \<Rightarrow> string list)
     \<Rightarrow> sheet_row list \<Rightarrow> (string \<times> json_data) list \<Rightarrow> exn + string list" where
  "main args_apps args_syscalls str_to_int iter worksheet files =
     bind_exn (aggregate str_to_int iter worksheet files) (\<lambda>st.
     bind_exn (if args_apps then print_apps st else Inr []) (\<lambda>out_apps.
     bind_exn (if args_syscalls then print_syscalls st else Inr []) (\<lambda>out_syscalls.
       Inr (out_apps @ out_syscalls))))"

subsection \<open>Notions the properties are stated with\<close>

text \<open>The symbols a section contributes, and the symbol set of a document: the union
  of its two sections.\<close>

definition section_symbols :: "string list option option \<Rightarrow> string list" where
  "section_symbols section =
     (case section of Some (Some data) \<Rightarrow> data | _ \<Rightarrow> [])"

definition symbols_of :: "json_data \<Rightarrow> string set" where
  "symbols_of jd =
     set (section_symbols (static_data jd)) \<union> set (section_symbols (dynamic_data jd))"

text \<open>The applications a walk loads: the \<^verbatim>\<open>.json\<close> files in visiting order, each
  under its name without the suffix.\<close>

definition loaded :: "(string \<times> json_data) list \<Rightarrow> (string \<times> json_data) list" where
  "loaded files =
     map (\<lambda>entry. (take (length (fst entry) - 5) (fst entry), snd entry))
       (filter (\<lambda>entry. suffix ''.json'' (fst entry)) files)"

text \<open>The status under which the first loop files a symbol (lines 96--99): the one
  the table has for it, or ABSENT when the table does not have the symbol.\<close>

definition lookup_status :: "(string \<times> syscall_record) list \<Rightarrow> string \<Rightarrow> string" where
  "lookup_status d symbol =
     (case map_of d symbol of None \<Rightarrow> ''ABSENT'' | Some r \<Rightarrow> sc_status r)"

text \<open>The bucket under key \<open>k\<close> (empty when there is no such key), and its length.\<close>

definition bucket_of :: "buckets \<Rightarrow> string \<Rightarrow> string list" where
  "bucket_of b k = (case map_of b k of None \<Rightarrow> [] | Some l \<Rightarrow> l)"

definition blen :: "buckets \<Rightarrow> string \<Rightarrow> nat" where
  "blen b k = length (bucket_of b k)"

text \<open>Every symbol of \<open>syms\<close> that the table has, has one of the nine bucket keys as
  its status there.\<close>

definition statuses_known :: "(string \<times> syscall_record) list \<Rightarrow> string list \<Rightarrow> bool" where
  "statuses_known d syms =
     list_all (\<lambda>s. case map_of d s of None \<Rightarrow> True | Some r \<Rightarrow> sc_status r \<in> set status_keys)
       syms"

subsection \<open>An example run\<close>

text \<open>A sheet with a header and two syscalls, and a folder with two application
  files and one file that is no application; the state the run ends in.\<close>

definition example_worksheet :: "sheet_row list" where
  "example_worksheet =
     [\<lparr>col_rax = XL_TEXT ''RAX'', col_name = ''Name'', col_status = ''Status''\<rparr>,
      \<lparr>col_rax = XL_NUMBER (Finite 57), col_name = ''fork'', col_status = ''''\<rparr>,
      \<lparr>col_rax = XL_NUMBER (Finite 12), col_name = ''brk'',
         col_status = ''okay, fully supported''\<rparr>]"

definition example_files :: "(string \<times> json_data) list" where
  "example_files =
     [(''app1.json'', \<lparr>static_data = Some (Some [''fork'', ''brk'']), dynamic_data = None\<rparr>),
      (''notes.txt'', \<lparr>static_data = None, dynamic_data = None\<rparr>),
      (''app2.json'', \<lparr>static_data = Some (Some [''brk'']),
                       dynamic_data = Some (Some [''brk'', ''xyz_unknown''])\<rparr>)]"

definition example_state :: state where
  "example_state =
     \<lparr>apps =
        [(''app1'',
          [(''OKAY'', [''brk'']), (''ABSENT'', []), (''NOT_IMPL'', [''fork'']),
           (''INCOMPLETE'', []), (''REG_MISS'', []), (''STUBBED'', []), (''BROKEN'', []),
           (''IN_PROGRESS'', []), (''PLANNED'', [])]),
         (''app2'',
          [(''OKAY'', [''brk'']), (''ABSENT'', [''xyz_unknown'']), (''NOT_IMPL'', []),
           (''INCOMPLETE'', []), (''REG_MISS'', []), (''STUBBED'', []), (''BROKEN'', []),
           (''IN_PROGRESS'', []), (''PLANNED'', [])])],
      syscalls =
        [(''fork'', \<lparr>sc_id = 57, sc_name = ''fork'', sc_status = ''NOT_IMPL'',
                     sc_apps = [''app1'']\<rparr>),
         (''brk'', \<lparr>sc_id = 12, sc_name = ''brk'', sc_status = ''OKAY'',
                    sc_apps = [''app1'', ''app2'']\<rparr>)],
      undefined_syscalls =
        [(''xyz_unknown'', \<lparr>us_name = ''xyz_unknown'', us_apps = [''app2'']\<rparr>)]\<rparr>"

text \<open>The state once the sheet has been read, the document of one application, and the
  state after that application alone has been processed in it.\<close>

definition example_table :: state where
  "example_table =
     \<lparr>apps = [],
      syscalls =
        [(''fork'', \<lparr>sc_id = 57, sc_name = ''fork'', sc_status = ''NOT_IMPL'', sc_apps = []\<rparr>),
         (''brk'', \<lparr>sc_id = 12, sc_name = ''brk'', sc_status = ''OKAY'', sc_apps = []\<rparr>)],
      undefined_syscalls = []\<rparr>"

definition example_doc :: json_data where
  "example_doc =
     \<lparr>static_data = Some (Some [''fork'', ''brk'']),
      dynamic_data = Some (Some [''brk'', ''xyz_unknown''])\<rparr>"

definition example_processed :: state where
  "example_processed =
     \<lparr>apps =
        [(''app1'',
          [(''OKAY'', [''brk'']), (''ABSENT'', [''xyz_unknown'']), (''NOT_IMPL'', [''fork'']),
           (''INCOMPLETE'', []), (''REG_MISS'', []), (''STUBBED'', []), (''BROKEN'', []),
           (''IN_PROGRESS'', []), (''PLANNED'', [])])],
      syscalls =
        [(''fork'', \<lparr>sc_id = 57, sc_name = ''fork'', sc_status = ''NOT_IMPL'',
                     sc_apps = [''app1'']\<rparr>),
         (''brk'', \<lparr>sc_id = 12, sc_name = ''brk'', sc_status = ''OKAY'',
                    sc_apps = [''app1'']\<rparr>)],
      undefined_syscalls =
        [(''xyz_unknown'', \<lparr>us_name = ''xyz_unknown'', us_apps = [''app1'']\<rparr>)]\<rparr>"

section \<open>Properties\<close>

subsection \<open>Substring search\<close>

lemma starts_with_prefix: "starts_with s sub = prefix sub s"
  by (induction s sub rule: starts_with.induct) auto

lemma py_in_sublist: "py_in sub s = sublist sub s"
proof (induction s)
  case Nil
  show ?case by simp
next
  case (Cons d s)
  then show ?case
    by (simp add: starts_with_prefix sublist_Cons_right)
qed

subsection \<open>The status normaliser\<close>

text \<open>
  C2. For every raw status string the normaliser of the source computes what the
  first-match-wins rule list of the specification computes: the empty string gives
  NOT\_IMPL, then the triggers "incomplete", "registration missing", "stubbed",
  "planned", "progress", "broken", "okay" are tried in this order, and a string that
  contains none of them is returned unchanged.
\<close>

theorem normalize_status_refines_spec:
  "normalize_status raw = spec_normalize raw"
  by (simp add: normalize_status_def spec_normalize_def spec_status_rules_def py_in_sublist)

subsection \<open>Sequencing and loops\<close>

lemma bind_exn_Inr_iff: "bind_exn m f = Inr y \<longleftrightarrow> (\<exists>x. m = Inr x \<and> f x = Inr y)"
  by (cases m) simp_all

lemma bind_exn_Inl_iff:
  "bind_exn m f = Inl e \<longleftrightarrow> m = Inl e \<or> (\<exists>x. m = Inr x \<and> f x = Inl e)"
  by (cases m) simp_all

lemma for_each_append:
  "for_each body (xs @ ys) st = bind_exn (for_each body xs st) (for_each body ys)"
proof (induction xs arbitrary: st)
  case Nil
  show ?case by simp
next
  case (Cons x xs)
  show ?case
  proof (cases "body x st")
    case (Inl e)
    then show ?thesis by simp
  next
    case (Inr st1)
    then show ?thesis using Cons.IH [of st1] by simp
  qed
qed

lemma for_each_invariant:
  assumes run: "for_each body xs st = Inr st'"
    and init: "P st"
    and step: "\<And>x s s'. x \<in> set xs \<Longrightarrow> P s \<Longrightarrow> body x s = Inr s' \<Longrightarrow> P s'"
  shows "P st'"
  using run init step
proof (induction xs arbitrary: st)
  case Nil
  then show ?case by simp
next
  case (Cons x xs)
  from Cons.prems(1) obtain st1 where b: "body x st = Inr st1"
    and r: "for_each body xs st1 = Inr st'"
    by (auto simp: bind_exn_Inr_iff)
  have "P st1" using Cons.prems(3) [of x st st1] Cons.prems(2) b by simp
  then show ?case
  proof (rule Cons.IH [OF r])
    fix y s s'
    assume "y \<in> set xs" "P s" "body y s = Inr s'"
    then show "P s'" using Cons.prems(3) [of y s s'] by simp
  qed
qed

lemma dict_get_Inr_iff: "dict_get d k = Inr v \<longleftrightarrow> map_of d k = Some v"
  by (simp add: dict_get_def split: option.splits)

lemma dict_get_Inl_iff: "dict_get d k = Inl e \<longleftrightarrow> map_of d k = None \<and> e = KeyError k"
  by (auto simp: dict_get_def split: option.splits)

lemma search_keys_member: "search_keys symbol ks = (symbol \<in> set ks)"
  by (induction ks) auto

subsection \<open>The spreadsheet\<close>

lemma parse_rax_finite:
  assumes "x \<noteq> XL_NUMBER PosInf" and "x \<noteq> XL_NUMBER NegInf"
  shows "parse_rax str_to_int x =
           Inr (case py_int str_to_int x of Inr n \<Rightarrow> n | Inl e \<Rightarrow> - 1)"
proof (cases x)
  case (XL_TEXT s)
  then show ?thesis by (simp add: parse_rax_def py_int_def split: option.splits)
next
  case (XL_NUMBER f)
  then show ?thesis using assms by (cases f) (simp_all add: parse_rax_def py_int_def)
next
  case (XL_INT n)
  then show ?thesis by (simp add: parse_rax_def py_int_def)
qed

lemma sheet_rows_finite:
  assumes "\<forall>row \<in> set rows. col_rax row \<noteq> XL_NUMBER PosInf \<and> col_rax row \<noteq> XL_NUMBER NegInf"
  shows "for_each (sheet_row_step str_to_int) rows ds =
           Inr \<lparr>ds_rax = ds_rax ds @
                   map (\<lambda>row. case py_int str_to_int (col_rax row) of Inr n \<Rightarrow> n | Inl e \<Rightarrow> - 1) rows,
                ds_name = ds_name ds @ map col_name rows,
                ds_status = ds_status ds @ map (\<lambda>row. normalize_status (col_status row)) rows\<rparr>"
  using assms
proof (induction rows arbitrary: ds)
  case Nil
  show ?case by simp
next
  case (Cons row rows)
  have fin: "col_rax row \<noteq> XL_NUMBER PosInf" "col_rax row \<noteq> XL_NUMBER NegInf"
    using Cons.prems by simp_all
  have rest: "\<forall>row \<in> set rows. col_rax row \<noteq> XL_NUMBER PosInf \<and> col_rax row \<noteq> XL_NUMBER NegInf"
    using Cons.prems by simp
  have step: "sheet_row_step str_to_int row ds =
      Inr \<lparr>ds_rax = ds_rax ds @
                [case py_int str_to_int (col_rax row) of Inr n \<Rightarrow> n | Inl e \<Rightarrow> - 1],
           ds_name = ds_name ds @ [col_name row],
           ds_status = ds_status ds @ [normalize_status (col_status row)]\<rparr>"
    by (simp add: sheet_row_step_def parse_rax_finite [OF fin])
  show ?case
    by (simp add: step Cons.IH [OF rest])
qed

text \<open>
  C6. The normaliser is idempotent: normalising its own output changes nothing, for
  every string. In particular each of the nine status constants is left as it is,
  because no trigger occurs in any of them: the list of (trigger, constant) pairs with
  the trigger contained in the constant is empty.
\<close>

theorem normalize_status_idempotent:
  "normalize_status (normalize_status raw) = normalize_status raw \<and>
   map normalize_status status_keys = status_keys \<and>
   [(t, k). t \<leftarrow> map fst spec_status_rules, k \<leftarrow> status_keys, py_in t k] = []"
proof (intro conjI)
  show "normalize_status (normalize_status raw) = normalize_status raw"
    by (auto simp: normalize_status_def)
  show "map normalize_status status_keys = status_keys"
    by (simp add: normalize_status_def status_keys_def)
  show "[(t, k). t \<leftarrow> map fst spec_status_rules, k \<leftarrow> status_keys, py_in t k] = []"
    by (simp add: spec_status_rules_def status_keys_def)
qed

text \<open>
  When no id cell of a data row is an infinite float, reading the sheet raises nothing
  and yields one id per data row: the integer \<^verbatim>\<open>int\<close> returns for the cell when the
  conversion succeeds, and \<open>-1\<close> when it raises \<^verbatim>\<open>ValueError\<close> (a text that is no
  integer, or a NaN).
\<close>

lemma process_syscall_spreadsheet_ids:
  assumes "\<forall>row \<in> set (drop 1 worksheet).
             col_rax row \<noteq> XL_NUMBER PosInf \<and> col_rax row \<noteq> XL_NUMBER NegInf"
  shows "\<exists>ds. process_syscall_spreadsheet str_to_int worksheet = Inr ds \<and>
              ds_rax ds =
                map (\<lambda>row. case py_int str_to_int (col_rax row) of Inr n \<Rightarrow> n | Inl e \<Rightarrow> - 1)
                  (drop 1 worksheet)"
  using sheet_rows_finite [OF assms, of str_to_int]
  by (simp add: process_syscall_spreadsheet_def)

lemma sheet_rows_infinite:
  assumes "\<exists>row \<in> set rows. col_rax row = XL_NUMBER PosInf \<or> col_rax row = XL_NUMBER NegInf"
  shows "for_each (sheet_row_step str_to_int) rows ds = Inl OverflowError"
  using assms
proof (induction rows arbitrary: ds)
  case Nil
  then show ?case by simp
next
  case (Cons row rows)
  show ?case
  proof (cases "col_rax row = XL_NUMBER PosInf \<or> col_rax row = XL_NUMBER NegInf")
    case True
    then have "parse_rax str_to_int (col_rax row) = Inl OverflowError"
      by (auto simp: parse_rax_def py_int_def)
    then show ?thesis by (simp add: sheet_row_step_def)
  next
    case False
    then have fin: "col_rax row \<noteq> XL_NUMBER PosInf" "col_rax row \<noteq> XL_NUMBER NegInf"
      by simp_all
    from False Cons.prems have rest:
      "\<exists>row \<in> set rows. col_rax row = XL_NUMBER PosInf \<or> col_rax row = XL_NUMBER NegInf"
      by auto
    obtain ds1 where step: "sheet_row_step str_to_int row ds = Inr ds1"
      by (simp add: sheet_row_step_def parse_rax_finite [OF fin])
    show ?thesis using Cons.IH [OF rest, of ds1] by (simp add: step)
  qed
qed

text \<open>
  C9. Parsing the id column is meant never to raise, with \<open>-1\<close> for a cell that is no
  number, and the code does not achieve it: the handler of lines 163--165 names
  \<^verbatim>\<open>ValueError\<close> only, while \<^verbatim>\<open>int\<close> of an infinite float raises
  \<^verbatim>\<open>OverflowError\<close>. Whenever a data row has an infinite float in the id column,
  reading the sheet raises \<^verbatim>\<open>OverflowError\<close> and so does the whole aggregation; no id
  is produced for that row.
\<close>

theorem infinite_rax_cell_raises_OverflowError:
  assumes "\<exists>row \<in> set (drop 1 worksheet).
             col_rax row = XL_NUMBER PosInf \<or> col_rax row = XL_NUMBER NegInf"
  shows "process_syscall_spreadsheet str_to_int worksheet = Inl OverflowError \<and>
         aggregate str_to_int iter worksheet files = Inl OverflowError"
proof -
  have "process_syscall_spreadsheet str_to_int worksheet = Inl OverflowError"
    unfolding process_syscall_spreadsheet_def using assms by (rule sheet_rows_infinite)
  then show ?thesis by (simp add: aggregate_def)
qed

theorem infinite_rax_cell_raises_OverflowError_witness:
  "process_syscall_spreadsheet (\<lambda>s. None)
     [\<lparr>col_rax = XL_TEXT ''RAX'', col_name = ''Name'', col_status = ''Status''\<rparr>,
      \<lparr>col_rax = XL_NUMBER (Finite 12), col_name = ''brk'', col_status = ''okay''\<rparr>,
      \<lparr>col_rax = XL_NUMBER PosInf, col_name = ''fork'', col_status = ''planned''\<rparr>]
   = Inl OverflowError"
  using infinite_rax_cell_raises_OverflowError
    [of "[\<lparr>col_rax = XL_TEXT ''RAX'', col_name = ''Name'', col_status = ''Status''\<rparr>,
      \<lparr>col_rax = XL_NUMBER (Finite 12), col_name = ''brk'', col_status = ''okay''\<rparr>,
      \<lparr>col_rax = XL_NUMBER PosInf, col_name = ''fork'', col_status = ''planned''\<rparr>]"
       "\<lambda>s. None"]
  by simp

subsection \<open>Collecting the symbols of a document\<close>

lemma fold_set_add:
  "set (fold set_add data s) = set s \<union> set data \<and> (distinct s \<longrightarrow> distinct (fold set_add data s))"
  by (induction data arbitrary: s) (auto simp: set_add_def)

lemma collect_symbols_Inr:
  assumes "collect_symbols jd = Inr syms"
  shows "distinct syms" and "set syms = symbols_of jd"
proof -
  from assms obtain s1 where a1: "add_section (static_data jd) [] = Inr s1"
    and a2: "add_section (dynamic_data jd) s1 = Inr syms"
    by (auto simp: collect_symbols_def bind_exn_Inr_iff)
  have s1: "distinct s1 \<and> set s1 = set (section_symbols (static_data jd))"
    using a1 fold_set_add [of _ "[]"]
    by (auto simp: add_section_def section_symbols_def split: option.splits)
  have "distinct syms \<and> set syms = set s1 \<union> set (section_symbols (dynamic_data jd))"
    using a2 s1 fold_set_add [of _ s1]
    by (auto simp: add_section_def section_symbols_def split: option.splits)
  then show "distinct syms" and "set syms = symbols_of jd"
    using s1 by (simp_all add: symbols_of_def)
qed

subsection \<open>The first loop: filing symbols into buckets\<close>

lemma map_of_keys: "map_of d k = None \<longleftrightarrow> k \<notin> set (map fst d)"
  by (simp add: map_of_eq_None_iff)

lemma place_symbol_eq:
  assumes "map_of (apps st) a = Some b"
  shows "place_symbol a s st =
           (case map_of b (lookup_status (syscalls st) s) of
              None \<Rightarrow> Inl (KeyError (lookup_status (syscalls st) s))
            | Some l \<Rightarrow>
                Inr (st\<lparr>apps := AList.update a
                       (AList.update (lookup_status (syscalls st) s) (l @ [s]) b) (apps st)\<rparr>))"
proof (cases "map_of (syscalls st) s")
  case None
  then have "s \<notin> set (map fst (syscalls st))" by (simp add: map_of_keys)
  then show ?thesis using None assms
    by (simp add: place_symbol_def lookup_status_def dict_get_def split: option.splits)
next
  case (Some r)
  then have "s \<in> set (map fst (syscalls st))" using map_of_keys [of "syscalls st" s] by simp
  then show ?thesis using Some assms
    by (simp add: place_symbol_def lookup_status_def dict_get_def split: option.splits)
qed

lemma place_loop_fails:
  assumes "map_of (apps st) a = Some b"
    and "find (\<lambda>s. map_of b (lookup_status (syscalls st) s) = None) syms = Some s"
  shows "for_each (place_symbol a) syms st = Inl (KeyError (lookup_status (syscalls st) s))"
  using assms
proof (induction syms arbitrary: st b)
  case Nil
  then show ?case by simp
next
  case (Cons x xs)
  show ?case
  proof (cases "map_of b (lookup_status (syscalls st) x)")
    case None
    then have "s = x" using Cons.prems(2) by simp
    then show ?thesis using None by (simp add: place_symbol_eq [OF Cons.prems(1)])
  next
    case (Some l)
    let ?k = "lookup_status (syscalls st) x"
    let ?b1 = "AList.update ?k (l @ [x]) b"
    let ?st1 = "st\<lparr>apps := AList.update a ?b1 (apps st)\<rparr>"
    have step: "place_symbol a x st = Inr ?st1"
      using Some by (simp add: place_symbol_eq [OF Cons.prems(1)])
    have m1: "map_of (apps ?st1) a = Some ?b1" by (simp add: update_conv')
    have same: "\<And>y. (map_of ?b1 y = None) = (map_of b y = None)"
      using Some by (simp add: update_conv')
    have f1: "find (\<lambda>s. map_of ?b1 (lookup_status (syscalls ?st1) s) = None) xs = Some s"
      using Cons.prems(2) Some by (simp add: same)
    show ?thesis using Cons.IH [OF m1 f1] by (simp add: step)
  qed
qed

lemma place_loop_succeeds:
  assumes "map_of (apps st) a = Some b"
    and "\<forall>s \<in> set syms. map_of b (lookup_status (syscalls st) s) \<noteq> None"
  shows "\<exists>b'. for_each (place_symbol a) syms st = Inr (st\<lparr>apps := AList.update a b' (apps st)\<rparr>) \<and>
              map fst b' = map fst b \<and>
              (\<forall>k. map_of b' k =
                 map_option (\<lambda>l. l @ filter (\<lambda>s. lookup_status (syscalls st) s = k) syms)
                   (map_of b k))"
  using assms
proof (induction syms arbitrary: st b)
  case Nil
  have "st\<lparr>apps := AList.update a b (apps st)\<rparr> = st"
    by (simp add: update_triv [OF Nil.prems(1)])
  moreover have "\<forall>k. map_of b k = map_option (\<lambda>l. l @ []) (map_of b k)"
    by (simp add: option.map_ident)
  ultimately show ?case by (intro exI [of _ b]) simp
next
  case (Cons x xs)
  let ?k = "lookup_status (syscalls st) x"
  from Cons.prems(2) obtain l where l: "map_of b ?k = Some l" by auto
  let ?b1 = "AList.update ?k (l @ [x]) b"
  let ?st1 = "st\<lparr>apps := AList.update a ?b1 (apps st)\<rparr>"
  have step: "place_symbol a x st = Inr ?st1"
    using l by (simp add: place_symbol_eq [OF Cons.prems(1)])
  have m1: "map_of (apps ?st1) a = Some ?b1" by (simp add: update_conv')
  have ok1: "\<forall>s \<in> set xs. map_of ?b1 (lookup_status (syscalls ?st1) s) \<noteq> None"
    using Cons.prems(2) by (simp add: update_conv')
  from Cons.IH [OF m1 ok1] obtain b' where
    run: "for_each (place_symbol a) xs ?st1 = Inr (?st1\<lparr>apps := AList.update a b' (apps ?st1)\<rparr>)"
    and keys: "map fst b' = map fst ?b1"
    and cont: "\<forall>k. map_of b' k =
                 map_option (\<lambda>l. l @ filter (\<lambda>s. lookup_status (syscalls ?st1) s = k) xs)
                   (map_of ?b1 k)"
    by blast
  have kin: "?k \<in> set (map fst b)" using l map_of_keys [of b ?k] by simp
  have r1: "for_each (place_symbol a) (x # xs) st = Inr (st\<lparr>apps := AList.update a b' (apps st)\<rparr>)"
    using run by (simp add: step)
  have r2: "map fst b' = map fst b" using keys kin by (simp add: update_keys)
  have r3: "\<forall>k. map_of b' k =
              map_option (\<lambda>l. l @ filter (\<lambda>s. lookup_status (syscalls st) s = k) (x # xs))
                (map_of b k)"
  proof
    fix k
    show "map_of b' k =
            map_option (\<lambda>l. l @ filter (\<lambda>s. lookup_status (syscalls st) s = k) (x # xs))
              (map_of b k)"
      using cont [rule_format, of k] l by (cases "k = ?k") (simp_all add: update_conv')
  qed
  show ?case using r1 r2 r3 by blast
qed


subsection \<open>The second loop: recording the application\<close>

lemma record_app_eq:
  "record_app a s st =
     Inr (case map_of (syscalls st) s of
            Some r \<Rightarrow>
              st\<lparr>syscalls := AList.update s (r\<lparr>sc_apps := sc_apps r @ [a]\<rparr>) (syscalls st)\<rparr>
          | None \<Rightarrow>
              st\<lparr>undefined_syscalls :=
                AList.update s
                  ((case map_of (undefined_syscalls st) s of
                      None \<Rightarrow> \<lparr>us_name = s, us_apps = []\<rparr>
                    | Some u \<Rightarrow> u)\<lparr>us_apps :=
                      (case map_of (undefined_syscalls st) s of
                         None \<Rightarrow> []
                       | Some u \<Rightarrow> us_apps u) @ [a]\<rparr>)
                  (undefined_syscalls st)\<rparr>)"
proof (cases "map_of (syscalls st) s")
  case (Some r)
  then have "s \<in> set (map fst (syscalls st))" using map_of_keys [of "syscalls st" s] by simp
  then show ?thesis using Some
    by (simp add: record_app_def search_keys_member dict_get_def)
next
  case None
  then have out: "s \<notin> set (map fst (syscalls st))" by (simp add: map_of_keys)
  show ?thesis
  proof (cases "map_of (undefined_syscalls st) s")
    case None
    then have "s \<notin> set (map fst (undefined_syscalls st))" by (simp add: map_of_keys)
    then show ?thesis using None \<open>map_of (syscalls st) s = None\<close> out
      by (simp add: record_app_def search_keys_member dict_get_def update_conv')
  next
    case (Some u)
    then have "s \<in> set (map fst (undefined_syscalls st))"
      using map_of_keys [of "undefined_syscalls st" s] by simp
    then show ?thesis using Some \<open>map_of (syscalls st) s = None\<close> out
      by (simp add: record_app_def search_keys_member dict_get_def)
  qed
qed

lemma record_loop:
  assumes "distinct syms"
  shows "\<exists>st'. for_each (record_app a) syms st = Inr st' \<and>
               apps st' = apps st \<and>
               map fst (syscalls st') = map fst (syscalls st) \<and>
               (\<forall>k. map_of (syscalls st') k =
                  (if k \<in> set syms
                   then map_option (\<lambda>r. r\<lparr>sc_apps := sc_apps r @ [a]\<rparr>) (map_of (syscalls st) k)
                   else map_of (syscalls st) k)) \<and>
               (\<forall>k. map_of (undefined_syscalls st') k =
                  (if k \<in> set syms \<and> map_of (syscalls st) k = None
                   then Some ((case map_of (undefined_syscalls st) k of
                                 None \<Rightarrow> \<lparr>us_name = k, us_apps = []\<rparr>
                               | Some u \<Rightarrow> u)\<lparr>us_apps :=
                                 (case map_of (undefined_syscalls st) k of
                                    None \<Rightarrow> []
                                  | Some u \<Rightarrow> us_apps u) @ [a]\<rparr>)
                   else map_of (undefined_syscalls st) k))"
  using assms
proof (induction syms arbitrary: st)
  case Nil
  show ?case by simp
next
  case (Cons x xs)
  obtain st1 where step: "record_app a x st = Inr st1" by (simp add: record_app_eq)
  have a1: "apps st1 = apps st"
    using step by (auto simp: record_app_eq split: option.splits)
  have k1: "map fst (syscalls st1) = map fst (syscalls st)"
  proof (cases "map_of (syscalls st) x")
    case None
    then show ?thesis using step by (auto simp: record_app_eq)
  next
    case (Some r)
    then have "x \<in> set (map fst (syscalls st))" using map_of_keys [of "syscalls st" x] by simp
    then have kx: "\<And>v. map fst (AList.update x v (syscalls st)) = map fst (syscalls st)"
      by (simp add: update_keys)
    have "st1 = st\<lparr>syscalls :=
                 AList.update x (r\<lparr>sc_apps := sc_apps r @ [a]\<rparr>) (syscalls st)\<rparr>"
      using step Some by (simp add: record_app_eq)
    then show ?thesis by (simp add: kx)
  qed
  have s1: "\<And>k. map_of (syscalls st1) k =
               (if k = x
                then map_option (\<lambda>r. r\<lparr>sc_apps := sc_apps r @ [a]\<rparr>) (map_of (syscalls st) k)
                else map_of (syscalls st) k)"
    using step by (auto simp: record_app_eq update_conv' split: option.splits)
  have u1: "\<And>k. map_of (undefined_syscalls st1) k =
               (if k = x \<and> map_of (syscalls st) k = None
                then Some ((case map_of (undefined_syscalls st) k of
                              None \<Rightarrow> \<lparr>us_name = k, us_apps = []\<rparr>
                            | Some u \<Rightarrow> u)\<lparr>us_apps :=
                              (case map_of (undefined_syscalls st) k of
                                 None \<Rightarrow> []
                               | Some u \<Rightarrow> us_apps u) @ [a]\<rparr>)
                else map_of (undefined_syscalls st) k)"
    using step by (auto simp: record_app_eq update_conv' split: option.splits)
  have none1: "\<And>k. (map_of (syscalls st1) k = None) = (map_of (syscalls st) k = None)"
    by (simp add: s1)
  from Cons.prems have dx: "x \<notin> set xs" and dxs: "distinct xs" by simp_all
  from Cons.IH [OF dxs, of st1] obtain st' where
    run: "for_each (record_app a) xs st1 = Inr st'"
    and a2: "apps st' = apps st1"
    and k2: "map fst (syscalls st') = map fst (syscalls st1)"
    and s2: "\<forall>k. map_of (syscalls st') k =
                (if k \<in> set xs
                 then map_option (\<lambda>r. r\<lparr>sc_apps := sc_apps r @ [a]\<rparr>) (map_of (syscalls st1) k)
                 else map_of (syscalls st1) k)"
    and u2: "\<forall>k. map_of (undefined_syscalls st') k =
                (if k \<in> set xs \<and> map_of (syscalls st1) k = None
                 then Some ((case map_of (undefined_syscalls st1) k of
                               None \<Rightarrow> \<lparr>us_name = k, us_apps = []\<rparr>
                             | Some u \<Rightarrow> u)\<lparr>us_apps :=
                               (case map_of (undefined_syscalls st1) k of
                                  None \<Rightarrow> []
                                | Some u \<Rightarrow> us_apps u) @ [a]\<rparr>)
                 else map_of (undefined_syscalls st1) k)"
    by blast
  have r1: "for_each (record_app a) (x # xs) st = Inr st'" using run by (simp add: step)
  have r2: "apps st' = apps st" using a1 a2 by simp
  have r3: "map fst (syscalls st') = map fst (syscalls st)" using k1 k2 by simp
  have r4: "\<forall>k. map_of (syscalls st') k =
              (if k \<in> set (x # xs)
               then map_option (\<lambda>r. r\<lparr>sc_apps := sc_apps r @ [a]\<rparr>) (map_of (syscalls st) k)
               else map_of (syscalls st) k)"
    using s2 dx by (auto simp: s1)
  have r5: "\<forall>k. map_of (undefined_syscalls st') k =
              (if k \<in> set (x # xs) \<and> map_of (syscalls st) k = None
               then Some ((case map_of (undefined_syscalls st) k of
                             None \<Rightarrow> \<lparr>us_name = k, us_apps = []\<rparr>
                           | Some u \<Rightarrow> u)\<lparr>us_apps :=
                             (case map_of (undefined_syscalls st) k of
                                None \<Rightarrow> []
                              | Some u \<Rightarrow> us_apps u) @ [a]\<rparr>)
               else map_of (undefined_syscalls st) k)"
  proof
    fix k
    show "map_of (undefined_syscalls st') k =
              (if k \<in> set (x # xs) \<and> map_of (syscalls st) k = None
               then Some ((case map_of (undefined_syscalls st) k of
                             None \<Rightarrow> \<lparr>us_name = k, us_apps = []\<rparr>
                           | Some u \<Rightarrow> u)\<lparr>us_apps :=
                             (case map_of (undefined_syscalls st) k of
                                None \<Rightarrow> []
                              | Some u \<Rightarrow> us_apps u) @ [a]\<rparr>)
               else map_of (undefined_syscalls st) k)"
    proof (cases "k = x")
      case True
      have "map_of (undefined_syscalls st') x = map_of (undefined_syscalls st1) x"
        using u2 [rule_format, of x] dx by simp
      then show ?thesis unfolding True by (simp add: u1)
    next
      case False
      then show ?thesis using u2 [rule_format, of k] by (simp add: none1 u1)
    qed
  qed
  show ?case using r1 r2 r3 r4 r5 by blast
qed


subsection \<open>One application\<close>

lemma map_of_empty_buckets:
  "map_of empty_buckets k = (if k \<in> set status_keys then Some [] else None)"
  by (simp add: empty_buckets_def status_keys_def)

lemma keys_empty_buckets: "map fst empty_buckets = status_keys"
  by (simp add: empty_buckets_def status_keys_def)

lemma process_application_json_Inr:
  assumes run: "process_application_json iter a jd st = Inr st'"
    and perm: "\<forall>xs. mset (iter xs) = mset xs"
  obtains syms b' where
    "collect_symbols jd = Inr syms"
    "distinct (iter syms)"
    "set (iter syms) = symbols_of jd"
    "\<forall>s \<in> symbols_of jd. lookup_status (syscalls st) s \<in> set status_keys"
    "apps st' = AList.update a b' (apps st)"
    "map fst b' = status_keys"
    "\<forall>k. map_of b' k =
       (if k \<in> set status_keys
        then Some (filter (\<lambda>s. lookup_status (syscalls st) s = k) (iter syms))
        else None)"
    "map fst (syscalls st') = map fst (syscalls st)"
    "\<forall>k. map_of (syscalls st') k =
       (if k \<in> symbols_of jd
        then map_option (\<lambda>r. r\<lparr>sc_apps := sc_apps r @ [a]\<rparr>) (map_of (syscalls st) k)
        else map_of (syscalls st) k)"
    "\<forall>k. map_of (undefined_syscalls st') k =
       (if k \<in> symbols_of jd \<and> map_of (syscalls st) k = None
        then Some ((case map_of (undefined_syscalls st) k of
                      None \<Rightarrow> \<lparr>us_name = k, us_apps = []\<rparr>
                    | Some u \<Rightarrow> u)\<lparr>us_apps :=
                      (case map_of (undefined_syscalls st) k of
                         None \<Rightarrow> []
                       | Some u \<Rightarrow> us_apps u) @ [a]\<rparr>)
        else map_of (undefined_syscalls st) k)"
proof -
  let ?st0 = "st\<lparr>apps := AList.update a empty_buckets (apps st)\<rparr>"
  from run obtain syms st2 where c: "collect_symbols jd = Inr syms"
    and p: "for_each (place_symbol a) (iter syms) ?st0 = Inr st2"
    and r: "for_each (record_app a) (iter syms) st2 = Inr st'"
    by (auto simp: process_application_json_def bind_exn_Inr_iff)
  let ?o = "iter syms"
  have ms: "mset ?o = mset syms" using perm by simp
  have d: "distinct ?o"
    using collect_symbols_Inr(1) [OF c] mset_eq_imp_distinct_iff [OF ms] by simp
  have s: "set ?o = symbols_of jd"
    using collect_symbols_Inr(2) [OF c] mset_eq_setD [OF ms] by simp
  have m0: "map_of (apps ?st0) a = Some empty_buckets" by (simp add: update_conv')
  have ok: "\<forall>s \<in> set ?o. map_of empty_buckets (lookup_status (syscalls ?st0) s) \<noteq> None"
  proof (rule ccontr)
    assume "\<not> ?thesis"
    then have "find (\<lambda>s. map_of empty_buckets (lookup_status (syscalls ?st0) s) = None) ?o \<noteq> None"
      by (auto simp: find_None_iff)
    then obtain s' where
      "find (\<lambda>s. map_of empty_buckets (lookup_status (syscalls ?st0) s) = None) ?o = Some s'"
      by auto
    from place_loop_fails [OF m0 this] p show False by simp
  qed
  from place_loop_succeeds [OF m0 ok] obtain b' where
    p': "for_each (place_symbol a) ?o ?st0 = Inr (?st0\<lparr>apps := AList.update a b' (apps ?st0)\<rparr>)"
    and kb: "map fst b' = map fst empty_buckets"
    and cb: "\<forall>k. map_of b' k =
               map_option (\<lambda>l. l @ filter (\<lambda>s. lookup_status (syscalls ?st0) s = k) ?o)
                 (map_of empty_buckets k)"
    by blast
  have st2: "st2 = st\<lparr>apps := AList.update a b' (apps st)\<rparr>"
    using p p' by simp
  from record_loop [OF d, of a st2] r obtain
    a2: "apps st' = apps st2"
    and k2: "map fst (syscalls st') = map fst (syscalls st2)"
    and s2: "\<forall>k. map_of (syscalls st') k =
                (if k \<in> set ?o
                 then map_option (\<lambda>r. r\<lparr>sc_apps := sc_apps r @ [a]\<rparr>) (map_of (syscalls st2) k)
                 else map_of (syscalls st2) k)"
    and u2: "\<forall>k. map_of (undefined_syscalls st') k =
                (if k \<in> set ?o \<and> map_of (syscalls st2) k = None
                 then Some ((case map_of (undefined_syscalls st2) k of
                               None \<Rightarrow> \<lparr>us_name = k, us_apps = []\<rparr>
                             | Some u \<Rightarrow> u)\<lparr>us_apps :=
                               (case map_of (undefined_syscalls st2) k of
                                  None \<Rightarrow> []
                                | Some u \<Rightarrow> us_apps u) @ [a]\<rparr>)
                 else map_of (undefined_syscalls st2) k)"
    by auto
  show thesis
  proof (rule that [of syms b'])
    show "collect_symbols jd = Inr syms" by (rule c)
    show "distinct ?o" by (rule d)
    show "set ?o = symbols_of jd" by (rule s)
    show "\<forall>s \<in> symbols_of jd. lookup_status (syscalls st) s \<in> set status_keys"
      using ok s by (simp add: map_of_empty_buckets split: if_splits)
    show "apps st' = AList.update a b' (apps st)" using a2 st2 by simp
    show "map fst b' = status_keys" using kb by (simp add: keys_empty_buckets)
    show "\<forall>k. map_of b' k =
       (if k \<in> set status_keys
        then Some (filter (\<lambda>s. lookup_status (syscalls st) s = k) ?o)
        else None)"
      using cb by (simp add: map_of_empty_buckets)
    show "map fst (syscalls st') = map fst (syscalls st)" using k2 st2 by simp
    show "\<forall>k. map_of (syscalls st') k =
       (if k \<in> symbols_of jd
        then map_option (\<lambda>r. r\<lparr>sc_apps := sc_apps r @ [a]\<rparr>) (map_of (syscalls st) k)
        else map_of (syscalls st) k)"
      using s2 s st2 by simp
    show "\<forall>k. map_of (undefined_syscalls st') k =
       (if k \<in> symbols_of jd \<and> map_of (syscalls st) k = None
        then Some ((case map_of (undefined_syscalls st) k of
                      None \<Rightarrow> \<lparr>us_name = k, us_apps = []\<rparr>
                    | Some u \<Rightarrow> u)\<lparr>us_apps :=
                      (case map_of (undefined_syscalls st) k of
                         None \<Rightarrow> []
                       | Some u \<Rightarrow> us_apps u) @ [a]\<rparr>)
        else map_of (undefined_syscalls st) k)"
      using u2 s st2 by simp
  qed
qed

subsection \<open>Counting\<close>

lemma sum_list_indicator:
  "distinct ks \<Longrightarrow>
     sum_list (map (\<lambda>k. if y = k then 1 else 0) ks) = (if y \<in> set ks then 1 else (0::nat))"
  by (induction ks) auto

lemma sum_list_filter_lengths:
  assumes "distinct ks" and "\<forall>x \<in> set xs. f x \<in> set ks"
  shows "sum_list (map (\<lambda>k. length (filter (\<lambda>x. f x = k) xs)) ks) = length xs"
  using assms(2)
proof (induction xs)
  case Nil
  show ?case by simp
next
  case (Cons x xs)
  have "sum_list (map (\<lambda>k. length (filter (\<lambda>x. f x = k) (x # xs))) ks) =
        sum_list (map (\<lambda>k. (if f x = k then 1 else 0) + length (filter (\<lambda>x. f x = k) xs)) ks)"
    by (rule arg_cong [where f = sum_list]) simp
  also have "\<dots> = sum_list (map (\<lambda>k. if f x = k then 1 else 0) ks) +
                   sum_list (map (\<lambda>k. length (filter (\<lambda>x. f x = k) xs)) ks)"
    by (simp add: sum_list_addf)
  also have "\<dots> = 1 + length xs"
    using Cons sum_list_indicator [OF assms(1), of "f x"] by simp
  finally show ?case by simp
qed

lemma filter_eq_singleton:
  "distinct ks \<Longrightarrow> y \<in> set ks \<Longrightarrow> filter (\<lambda>k. y = k) ks = [y]"
  by (induction ks) (auto simp: filter_empty_conv)

lemma distinct_status_keys: "distinct status_keys"
  by (simp add: status_keys_def)

text \<open>
  What a run that returns has done: the application's nine buckets partition the
  symbols of the document by status.
\<close>

lemma bucket_lengths_of_run:
  assumes "process_application_json iter a jd st = Inr st'"
    and "\<forall>xs. mset (iter xs) = mset xs"
  shows "\<exists>b. map_of (apps st') a = Some b \<and>
             map fst b = status_keys \<and>
             sum_list (map (blen b) status_keys) = card (symbols_of jd) \<and>
             (\<forall>s \<in> symbols_of jd.
                filter (\<lambda>k. s \<in> set (bucket_of b k)) status_keys =
                  [lookup_status (syscalls st) s])"
proof (rule process_application_json_Inr [OF assms], goal_cases)
  case (1 syms b)
  note d = 1(2) and s = 1(3) and ok = 1(4) and ap = 1(5) and kb = 1(6) and cb = 1(7)
  have bo: "\<And>k. k \<in> set status_keys \<Longrightarrow>
              bucket_of b k = filter (\<lambda>s. lookup_status (syscalls st) s = k) (iter syms)"
    using cb by (simp add: bucket_of_def)
  have "sum_list (map (blen b) status_keys) =
        sum_list (map (\<lambda>k. length (filter (\<lambda>s. lookup_status (syscalls st) s = k) (iter syms)))
                    status_keys)"
    by (rule arg_cong [where f = sum_list]) (simp add: blen_def bo)
  also have "\<dots> = length (iter syms)"
    using sum_list_filter_lengths [OF distinct_status_keys, of "iter syms" "lookup_status (syscalls st)"]
      ok s by simp
  also have "\<dots> = card (symbols_of jd)"
    using distinct_card [OF d] s by simp
  finally have total: "sum_list (map (blen b) status_keys) = card (symbols_of jd)" .
  have one: "\<forall>s \<in> symbols_of jd.
                filter (\<lambda>k. s \<in> set (bucket_of b k)) status_keys =
                  [lookup_status (syscalls st) s]"
  proof
    fix x assume x: "x \<in> symbols_of jd"
    have "filter (\<lambda>k. x \<in> set (bucket_of b k)) status_keys =
          filter (\<lambda>k. lookup_status (syscalls st) x = k) status_keys"
      by (rule filter_cong) (use x s in \<open>auto simp: bo\<close>)
    also have "\<dots> = [lookup_status (syscalls st) x]"
      using filter_eq_singleton [OF distinct_status_keys] ok x by simp
    finally show "filter (\<lambda>k. x \<in> set (bucket_of b k)) status_keys =
                    [lookup_status (syscalls st) x]" .
  qed
  have "map_of (apps st') a = Some b" by (simp add: ap update_conv')
  then show ?thesis using kb total one by blast
qed

subsection \<open>What one application changes\<close>

lemma process_syscalls:
  assumes "process_application_json iter a jd st = Inr st'"
    and "\<forall>xs. mset (iter xs) = mset xs"
  shows "map_of (syscalls st') k =
           (if k \<in> symbols_of jd
            then map_option (\<lambda>r. r\<lparr>sc_apps := sc_apps r @ [a]\<rparr>) (map_of (syscalls st) k)
            else map_of (syscalls st) k)"
proof (rule process_application_json_Inr [OF assms], goal_cases)
  case (1 syms b)
  from 1(9) show ?case by simp
qed

lemma process_syscall_keys:
  assumes "process_application_json iter a jd st = Inr st'"
    and "\<forall>xs. mset (iter xs) = mset xs"
  shows "map fst (syscalls st') = map fst (syscalls st)"
proof (rule process_application_json_Inr [OF assms], goal_cases)
  case (1 syms b)
  from 1(8) show ?case .
qed

lemma process_undefined:
  assumes "process_application_json iter a jd st = Inr st'"
    and "\<forall>xs. mset (iter xs) = mset xs"
  shows "map_of (undefined_syscalls st') k =
           (if k \<in> symbols_of jd \<and> map_of (syscalls st) k = None
            then Some ((case map_of (undefined_syscalls st) k of
                          None \<Rightarrow> \<lparr>us_name = k, us_apps = []\<rparr>
                        | Some u \<Rightarrow> u)\<lparr>us_apps :=
                          (case map_of (undefined_syscalls st) k of
                             None \<Rightarrow> []
                           | Some u \<Rightarrow> us_apps u) @ [a]\<rparr>)
            else map_of (undefined_syscalls st) k)"
proof (rule process_application_json_Inr [OF assms], goal_cases)
  case (1 syms b)
  from 1(10) show ?case by simp
qed


subsection \<open>All applications\<close>

lemma loaded_Cons:
  "loaded (e # es) =
     (if suffix ''.json'' (fst e)
      then (take (length (fst e) - 5) (fst e), snd e) # loaded es
      else loaded es)"
  by (simp add: loaded_def)

lemma walk_syscalls:
  assumes "walk_application_json_folder iter files st = Inr st'"
    and perm: "\<forall>xs. mset (iter xs) = mset xs"
  shows "map_of (syscalls st') k =
           map_option
             (\<lambda>r. r\<lparr>sc_apps := sc_apps r @
                      map fst (filter (\<lambda>e. k \<in> symbols_of (snd e)) (loaded files))\<rparr>)
             (map_of (syscalls st) k)"
  using assms(1) unfolding walk_application_json_folder_def
proof (induction files arbitrary: st)
  case Nil
  then show ?case by (cases "map_of (syscalls st) k") (simp_all add: loaded_def)
next
  case (Cons e es)
  from Cons.prems obtain st1 where step: "walk_step iter e st = Inr st1"
    and rest: "for_each (walk_step iter) es st1 = Inr st'"
    by (auto simp: bind_exn_Inr_iff)
  note ih = Cons.IH [OF rest]
  show ?case
  proof (cases "suffix ''.json'' (fst e)")
    case False
    then have "st1 = st" using step by (simp add: walk_step_def)
    then show ?thesis using ih False by (simp add: loaded_Cons)
  next
    case True
    then have run: "process_application_json iter (take (length (fst e) - 5) (fst e)) (snd e) st
                      = Inr st1"
      using step by (simp add: walk_step_def)
    show ?thesis
      using ih True
      by (cases "map_of (syscalls st) k")
         (simp_all add: loaded_Cons process_syscalls [OF run perm])
  qed
qed

lemma walk_nothing_loaded:
  assumes "loaded files = []"
  shows "walk_application_json_folder iter files st = Inr st"
  using assms unfolding walk_application_json_folder_def
proof (induction files)
  case Nil
  show ?case by simp
next
  case (Cons e es)
  then show ?case by (simp add: loaded_Cons walk_step_def split: if_splits)
qed

subsection \<open>The table built from the sheet\<close>

lemma set_update_subset: "set (AList.update k v d) \<subseteq> insert (k, v) (set d)"
  by (induction d) auto

lemma build_syscalls_no_apps:
  assumes "build_syscalls ds = Inr d"
  shows "\<forall>e \<in> set d. sc_apps (snd e) = []"
proof (rule for_each_invariant [where P = "\<lambda>d. \<forall>e \<in> set d. sc_apps (snd e) = []",
        OF assms [unfolded build_syscalls_def]])
  show "\<forall>e \<in> set []. sc_apps (snd e) = []" by simp
next
  fix i :: nat and s s' :: "(string \<times> syscall_record) list"
  assume inv: "\<forall>e \<in> set s. sc_apps (snd e) = []" and step: "add_syscall ds i s = Inr s'"
  from step obtain rax name status where
    s': "s' = AList.update name
                \<lparr>sc_id = rax, sc_name = name, sc_status = status, sc_apps = []\<rparr> s"
    by (auto simp: add_syscall_def bind_exn_Inr_iff)
  show "\<forall>e \<in> set s'. sc_apps (snd e) = []"
    using inv set_update_subset [of name _ s] unfolding s' by fastforce
qed

text \<open>
  C4. After the sheet and all application files have been read, the apps list of every
  syscall of the status table holds the names of the loaded applications whose symbol
  set contains the syscall, in load order, once per loaded application; so its length
  is the number of these applications.
\<close>

theorem syscall_apps_are_the_referencing_applications:
  assumes "aggregate str_to_int iter worksheet files = Inr st"
    and "\<forall>xs. mset (iter xs) = mset xs"
    and "map_of (syscalls st) s = Some r"
  shows "sc_apps r = map fst (filter (\<lambda>e. s \<in> symbols_of (snd e)) (loaded files)) \<and>
         length (sc_apps r) = length (filter (\<lambda>e. s \<in> symbols_of (snd e)) (loaded files))"
proof -
  from assms(1) obtain ds d where b: "build_syscalls ds = Inr d"
    and w: "walk_application_json_folder iter files
              \<lparr>apps = [], syscalls = d, undefined_syscalls = []\<rparr> = Inr st"
    by (auto simp: aggregate_def bind_exn_Inr_iff)
  from walk_syscalls [OF w assms(2), of s] assms(3) obtain r0 where
    r0: "map_of d s = Some r0"
    and r: "r = r0\<lparr>sc_apps := sc_apps r0 @
               map fst (filter (\<lambda>e. s \<in> symbols_of (snd e)) (loaded files))\<rparr>"
    by (cases "map_of d s") auto
  have "(s, r0) \<in> set d" using r0 by (rule map_of_SomeD)
  then have "sc_apps r0 = []" using build_syscalls_no_apps [OF b] by fastforce
  then show ?thesis using r by simp
qed

lemma example_run:
  "aggregate (\<lambda>s. None) rev example_worksheet example_files = Inr example_state"
  by code_simp

theorem syscall_apps_are_the_referencing_applications_witness:
  "aggregate (\<lambda>s. None) rev example_worksheet example_files = Inr example_state \<and>
   map_of (syscalls example_state) ''brk'' =
     Some \<lparr>sc_id = 12, sc_name = ''brk'', sc_status = ''OKAY'', sc_apps = [''app1'', ''app2'']\<rparr> \<and>
   map fst (filter (\<lambda>e. ''brk'' \<in> symbols_of (snd e)) (loaded example_files)) =
     [''app1'', ''app2'']"
proof -
  have perm: "\<forall>xs::string list. mset (rev xs) = mset xs" by simp
  have look: "map_of (syscalls example_state) ''brk'' =
     Some \<lparr>sc_id = 12, sc_name = ''brk'', sc_status = ''OKAY'', sc_apps = [''app1'', ''app2'']\<rparr>"
    by (simp add: example_state_def)
  from syscall_apps_are_the_referencing_applications [OF example_run perm look]
  have "map fst (filter (\<lambda>e. ''brk'' \<in> symbols_of (snd e)) (loaded example_files)) =
          [''app1'', ''app2'']"
    by simp
  with example_run look show ?thesis by blast
qed

subsection \<open>When processing an application raises\<close>

lemma statuses_known_iff:
  "statuses_known d syms \<longleftrightarrow> (\<forall>s \<in> set syms. lookup_status d s \<in> set status_keys)"
  by (auto simp: statuses_known_def list_all_iff lookup_status_def status_keys_def
           split: option.splits)

lemma find_SomeD: "find P xs = Some x \<Longrightarrow> P x \<and> x \<in> set xs"
  by (induction xs) (auto split: if_splits)

lemma process_application_json_succeeds:
  assumes c: "collect_symbols jd = Inr syms"
    and perm: "\<forall>xs. mset (iter xs) = mset xs"
    and ok: "\<forall>s \<in> set syms. lookup_status (syscalls st) s \<in> set status_keys"
  shows "\<exists>st'. process_application_json iter a jd st = Inr st'"
proof -
  let ?st0 = "st\<lparr>apps := AList.update a empty_buckets (apps st)\<rparr>"
  have ms: "mset (iter syms) = mset syms" using perm by simp
  have d: "distinct (iter syms)"
    using collect_symbols_Inr(1) [OF c] mset_eq_imp_distinct_iff [OF ms] by simp
  have s: "set (iter syms) = set syms" using mset_eq_setD [OF ms] .
  have m0: "map_of (apps ?st0) a = Some empty_buckets" by (simp add: update_conv')
  have ok0: "\<forall>s \<in> set (iter syms). map_of empty_buckets (lookup_status (syscalls ?st0) s) \<noteq> None"
    using ok s by (simp add: map_of_empty_buckets)
  from place_loop_succeeds [OF m0 ok0] obtain st2 where
    p: "for_each (place_symbol a) (iter syms) ?st0 = Inr st2" by blast
  from record_loop [OF d, of a st2] obtain st' where
    r: "for_each (record_app a) (iter syms) st2 = Inr st'" by blast
  have "process_application_json iter a jd st = Inr st'"
    by (simp add: process_application_json_def c p r)
  then show ?thesis by blast
qed

lemma process_application_json_fails:
  assumes c: "collect_symbols jd = Inr syms"
    and perm: "\<forall>xs. mset (iter xs) = mset xs"
    and bad: "\<not> (\<forall>s \<in> set syms. lookup_status (syscalls st) s \<in> set status_keys)"
  shows "\<exists>s r. s \<in> set syms \<and> map_of (syscalls st) s = Some r \<and>
               sc_status r \<notin> set status_keys \<and>
               process_application_json iter a jd st = Inl (KeyError (sc_status r))"
proof -
  let ?st0 = "st\<lparr>apps := AList.update a empty_buckets (apps st)\<rparr>"
  let ?P = "\<lambda>s. map_of empty_buckets (lookup_status (syscalls ?st0) s) = None"
  have ms: "mset (iter syms) = mset syms" using perm by simp
  have s: "set (iter syms) = set syms" using mset_eq_setD [OF ms] .
  have m0: "map_of (apps ?st0) a = Some empty_buckets" by (simp add: update_conv')
  have "\<exists>x. x \<in> set (iter syms) \<and> ?P x"
    using bad s by (auto simp: map_of_empty_buckets)
  then have "find ?P (iter syms) \<noteq> None" by (simp add: find_None_iff)
  then obtain x where f: "find ?P (iter syms) = Some x" by auto
  from find_SomeD [OF f] have px: "?P x" and xin: "x \<in> set syms" using s by auto
  have nk: "lookup_status (syscalls st) x \<notin> set status_keys"
    using px by (simp add: map_of_empty_buckets split: if_splits)
  then obtain r where r: "map_of (syscalls st) x = Some r"
    and rs: "sc_status r = lookup_status (syscalls st) x"
    by (cases "map_of (syscalls st) x") (auto simp: lookup_status_def status_keys_def)
  have "for_each (place_symbol a) (iter syms) ?st0 = Inl (KeyError (lookup_status (syscalls ?st0) x))"
    by (rule place_loop_fails [OF m0 f])
  then have "process_application_json iter a jd st = Inl (KeyError (sc_status r))"
    by (simp add: process_application_json_def c rs)
  then show ?thesis using xin r nk rs by auto
qed

text \<open>
  C5. Let the two sections of a document be readable, with symbol set \<open>syms\<close>. If
  every symbol of \<open>syms\<close> that the status table has, has one of the nine bucket keys as
  its status, processing the application returns a state. If not, it raises
  \<^verbatim>\<open>KeyError\<close> with the status of a symbol of \<open>syms\<close> whose status in the table is
  none of the nine keys; and a walk whose earlier files have been processed up to that
  state ends with a \<^verbatim>\<open>KeyError\<close> at this application, whatever files follow.
\<close>

theorem process_application_json_total_iff_statuses_known:
  assumes "collect_symbols jd = Inr syms"
    and "\<forall>xs. mset (iter xs) = mset xs"
  shows "(statuses_known (syscalls st) syms \<longrightarrow>
            (\<exists>st'. process_application_json iter a jd st = Inr st')) \<and>
         (\<not> statuses_known (syscalls st) syms \<longrightarrow>
            (\<exists>s r. s \<in> set syms \<and> map_of (syscalls st) s = Some r \<and>
                   sc_status r \<notin> set status_keys \<and>
                   process_application_json iter a jd st = Inl (KeyError (sc_status r))) \<and>
            (walk_application_json_folder iter pre st0 = Inr st \<longrightarrow>
               (\<exists>k. walk_application_json_folder iter (pre @ (a @ ''.json'', jd) # post) st0
                      = Inl (KeyError k))))"
proof (intro conjI impI)
  assume "statuses_known (syscalls st) syms"
  then show "\<exists>st'. process_application_json iter a jd st = Inr st'"
    using process_application_json_succeeds [OF assms] by (simp add: statuses_known_iff)
next
  assume "\<not> statuses_known (syscalls st) syms"
  then show "\<exists>s r. s \<in> set syms \<and> map_of (syscalls st) s = Some r \<and>
                   sc_status r \<notin> set status_keys \<and>
                   process_application_json iter a jd st = Inl (KeyError (sc_status r))"
    using process_application_json_fails [OF assms] by (simp add: statuses_known_iff)
next
  assume bad: "\<not> statuses_known (syscalls st) syms"
    and pre: "walk_application_json_folder iter pre st0 = Inr st"
  from bad process_application_json_fails [OF assms, of st a] obtain k where
    k: "process_application_json iter a jd st = Inl (KeyError k)"
    by (auto simp: statuses_known_iff)
  have "walk_step iter (a @ ''.json'', jd) st = Inl (KeyError k)"
    by (simp add: walk_step_def suffix_def k)
  then have "walk_application_json_folder iter (pre @ (a @ ''.json'', jd) # post) st0
               = Inl (KeyError k)"
    using pre by (simp add: walk_application_json_folder_def for_each_append)
  then show "\<exists>k. walk_application_json_folder iter (pre @ (a @ ''.json'', jd) # post) st0
                 = Inl (KeyError k)"
    by blast
qed

theorem process_application_json_total_iff_statuses_known_witness:
  "(\<exists>st'. process_application_json rev ''app1''
            \<lparr>static_data = Some (Some [''fork'', ''brk'']), dynamic_data = None\<rparr>
            \<lparr>apps = [],
               syscalls = [(''fork'', \<lparr>sc_id = 57, sc_name = ''fork'',
                                        sc_status = normalize_status [], sc_apps = []\<rparr>)],
               undefined_syscalls = []\<rparr> = Inr st') \<and>
   process_application_json rev ''app1''
     \<lparr>static_data = Some (Some [''fork'', ''brk'']), dynamic_data = None\<rparr>
     \<lparr>apps = [],
        syscalls = [(''fork'', \<lparr>sc_id = 57, sc_name = ''fork'',
                                 sc_status = normalize_status ''awaiting review'', sc_apps = []\<rparr>)],
        undefined_syscalls = []\<rparr> = Inl (KeyError ''awaiting review'')"
proof -
  let ?jd = "\<lparr>static_data = Some (Some [''fork'', ''brk'']), dynamic_data = None\<rparr>"
  let ?good = "\<lparr>apps = [],
               syscalls = [(''fork'', \<lparr>sc_id = 57, sc_name = ''fork'',
                                        sc_status = normalize_status [], sc_apps = []\<rparr>)],
               undefined_syscalls = []\<rparr>"
  let ?bad = "\<lparr>apps = [],
        syscalls = [(''fork'', \<lparr>sc_id = 57, sc_name = ''fork'',
                                 sc_status = normalize_status ''awaiting review'', sc_apps = []\<rparr>)],
        undefined_syscalls = []\<rparr>"
  have c: "collect_symbols ?jd = Inr [''fork'', ''brk'']"
    by (simp add: collect_symbols_def add_section_def set_add_def)
  have perm: "\<forall>xs::string list. mset (rev xs) = mset xs" by simp
  have n1: "normalize_status [] = ''NOT_IMPL''" by (simp add: normalize_status_def)
  have n2: "normalize_status ''awaiting review'' = ''awaiting review''"
    by (simp add: normalize_status_def)
  have g: "statuses_known (syscalls ?good) [''fork'', ''brk'']"
    by (simp add: statuses_known_def n1 status_keys_def)
  have b: "\<not> statuses_known (syscalls ?bad) [''fork'', ''brk'']"
    by (simp add: statuses_known_def n2 status_keys_def)
  have good_run: "\<exists>st'. process_application_json rev ''app1'' ?jd ?good = Inr st'"
    using process_application_json_total_iff_statuses_known [OF c perm, of "?good" "''app1''"] g
    by blast
  have "\<exists>s r. s \<in> set [''fork'', ''brk''] \<and> map_of (syscalls ?bad) s = Some r \<and>
               sc_status r \<notin> set status_keys \<and>
               process_application_json rev ''app1'' ?jd ?bad = Inl (KeyError (sc_status r))"
    using process_application_json_total_iff_statuses_known [OF c perm, of "?bad" "''app1''"] b
    by blast
  then have bad_run: "process_application_json rev ''app1'' ?jd ?bad = Inl (KeyError ''awaiting review'')"
    by (auto simp: n2)
  from good_run bad_run show ?thesis by blast
qed

lemma example_processed_run:
  "process_application_json rev ''app1'' example_doc example_table = Inr example_processed"
  by code_simp

lemma example_doc_symbols:
  "collect_symbols example_doc = Inr [''fork'', ''brk'', ''xyz_unknown'']"
  by (simp add: example_doc_def collect_symbols_def add_section_def set_add_def)

lemma example_table_statuses:
  "statuses_known (syscalls example_table) [''fork'', ''brk'', ''xyz_unknown'']"
  by (simp add: statuses_known_def example_table_def status_keys_def)

lemma rev_is_permutation: "\<forall>xs::string list. mset (rev xs) = mset xs"
  by simp

text \<open>
  C3. Let the two sections of a document be readable and let every symbol of the
  document that the status table has, have one of the nine bucket keys as its status.
  Then processing the application returns a state in which the lengths of the
  application's nine buckets add up to the number of distinct symbols in the union of
  the static and dynamic sections, and each of these symbols is in exactly one bucket:
  the one of its status.
\<close>

theorem bucket_lengths_sum_to_symbol_count:
  assumes "collect_symbols jd = Inr syms"
    and "\<forall>xs. mset (iter xs) = mset xs"
    and "statuses_known (syscalls st) syms"
  shows "\<exists>st' b. process_application_json iter a jd st = Inr st' \<and>
             map_of (apps st') a = Some b \<and>
             map fst b = status_keys \<and>
             sum_list (map (blen b) status_keys) = card (symbols_of jd) \<and>
             (\<forall>s \<in> symbols_of jd.
                filter (\<lambda>k. s \<in> set (bucket_of b k)) status_keys =
                  [lookup_status (syscalls st) s])"
proof -
  from process_application_json_succeeds [OF assms(1,2), of st a] assms(3)
  obtain st' where run: "process_application_json iter a jd st = Inr st'"
    by (auto simp: statuses_known_iff)
  from bucket_lengths_of_run [OF run assms(2)] obtain b where
    "map_of (apps st') a = Some b \<and>
             map fst b = status_keys \<and>
             sum_list (map (blen b) status_keys) = card (symbols_of jd) \<and>
             (\<forall>s \<in> symbols_of jd.
                filter (\<lambda>k. s \<in> set (bucket_of b k)) status_keys =
                  [lookup_status (syscalls st) s])"
    by (elim exE)
  with run have "process_application_json iter a jd st = Inr st' \<and>
             map_of (apps st') a = Some b \<and>
             map fst b = status_keys \<and>
             sum_list (map (blen b) status_keys) = card (symbols_of jd) \<and>
             (\<forall>s \<in> symbols_of jd.
                filter (\<lambda>k. s \<in> set (bucket_of b k)) status_keys =
                  [lookup_status (syscalls st) s])"
    by (rule conjI)
  then show ?thesis
    by - (rule exI [of _ st'], rule exI [of _ b], assumption)
qed

theorem bucket_lengths_sum_to_symbol_count_witness:
  "process_application_json rev ''app1'' example_doc example_table = Inr example_processed \<and>
   map_of (apps example_processed) ''app1'' =
     Some [(''OKAY'', [''brk'']), (''ABSENT'', [''xyz_unknown'']), (''NOT_IMPL'', [''fork'']),
           (''INCOMPLETE'', []), (''REG_MISS'', []), (''STUBBED'', []), (''BROKEN'', []),
           (''IN_PROGRESS'', []), (''PLANNED'', [])] \<and>
   sum_list (map (blen [(''OKAY'', [''brk'']), (''ABSENT'', [''xyz_unknown'']),
                        (''NOT_IMPL'', [''fork'']), (''INCOMPLETE'', []), (''REG_MISS'', []),
                        (''STUBBED'', []), (''BROKEN'', []), (''IN_PROGRESS'', []),
                        (''PLANNED'', [])]) status_keys) = card (symbols_of example_doc) \<and>
   card (symbols_of example_doc) = 3"
proof -
  let ?b = "[(''OKAY'', [''brk'']), (''ABSENT'', [''xyz_unknown'']), (''NOT_IMPL'', [''fork'']),
           (''INCOMPLETE'', []), (''REG_MISS'', []), (''STUBBED'', []), (''BROKEN'', []),
           (''IN_PROGRESS'', []), (''PLANNED'', [])]"
  have look: "map_of (apps example_processed) ''app1'' = Some ?b"
    by (simp add: example_processed_def)
  have c: "card (symbols_of example_doc) = 3"
    by (simp add: example_doc_def symbols_of_def section_symbols_def card_insert_if)
  from bucket_lengths_sum_to_symbol_count
         [OF example_doc_symbols rev_is_permutation example_table_statuses, of "''app1''"]
  obtain st' b where r: "process_application_json rev ''app1'' example_doc example_table = Inr st'"
    and m: "map_of (apps st') ''app1'' = Some b"
    and s: "sum_list (map (blen b) status_keys) = card (symbols_of example_doc)"
    by (elim exE conjE)
  from r have "st' = example_processed" by (simp add: example_processed_run)
  with m look have "b = ?b" by simp
  with s have "sum_list (map (blen ?b) status_keys) = card (symbols_of example_doc)" by simp
  with example_processed_run look c show ?thesis by (intro conjI)
qed

subsection \<open>The reports\<close>









subsection \<open>The two apps-list updates exclude each other\<close>

lemma apps_list_update_of_run:
  assumes run: "process_application_json iter a jd st = Inr st'"
    and perm: "\<forall>xs. mset (iter xs) = mset xs"
    and sym: "s \<in> symbols_of jd"
  shows "search_keys s (map fst (syscalls st)) = (s \<in> set (map fst (syscalls st))) \<and>
     (if s \<in> set (map fst (syscalls st))
      then (\<exists>r. map_of (syscalls st) s = Some r \<and>
                map_of (syscalls st') s = Some (r\<lparr>sc_apps := sc_apps r @ [a]\<rparr>)) \<and>
           map_of (undefined_syscalls st') s = map_of (undefined_syscalls st) s
      else map_of (syscalls st') s = None \<and>
           (\<exists>u. map_of (undefined_syscalls st') s = Some u \<and>
                us_apps u =
                  (case map_of (undefined_syscalls st) s of None \<Rightarrow> [] | Some u0 \<Rightarrow> us_apps u0)
                    @ [a])) \<and>
     (set (map fst (undefined_syscalls st)) \<inter> set (map fst (syscalls st)) = {} \<longrightarrow>
        (s \<in> set (map fst (undefined_syscalls st')) \<longleftrightarrow> s \<notin> set (map fst (syscalls st'))) \<and>
        set (map fst (undefined_syscalls st')) \<inter> set (map fst (syscalls st')) = {})"
proof (intro conjI impI)
  show "search_keys s (map fst (syscalls st)) = (s \<in> set (map fst (syscalls st)))"
    by (rule search_keys_member)
next
  show "if s \<in> set (map fst (syscalls st))
      then (\<exists>r. map_of (syscalls st) s = Some r \<and>
                map_of (syscalls st') s = Some (r\<lparr>sc_apps := sc_apps r @ [a]\<rparr>)) \<and>
           map_of (undefined_syscalls st') s = map_of (undefined_syscalls st) s
      else map_of (syscalls st') s = None \<and>
           (\<exists>u. map_of (undefined_syscalls st') s = Some u \<and>
                us_apps u =
                  (case map_of (undefined_syscalls st) s of None \<Rightarrow> [] | Some u0 \<Rightarrow> us_apps u0)
                    @ [a])"
  proof (cases "map_of (syscalls st) s")
    case None
    then have out: "s \<notin> set (map fst (syscalls st))" by (simp add: map_of_keys)
    have "map_of (syscalls st') s = None"
      using process_syscalls [OF run perm, of s] None by simp
    moreover have "\<exists>u. map_of (undefined_syscalls st') s = Some u \<and>
                us_apps u =
                  (case map_of (undefined_syscalls st) s of None \<Rightarrow> [] | Some u0 \<Rightarrow> us_apps u0)
                    @ [a]"
      using process_undefined [OF run perm, of s] None sym by simp
    ultimately show ?thesis using out by simp
  next
    case (Some r)
    then have inn: "s \<in> set (map fst (syscalls st))"
      using map_of_keys [of "syscalls st" s] by simp
    have "map_of (syscalls st') s = Some (r\<lparr>sc_apps := sc_apps r @ [a]\<rparr>)"
      using process_syscalls [OF run perm, of s] Some sym by simp
    moreover have "map_of (undefined_syscalls st') s = map_of (undefined_syscalls st) s"
      using process_undefined [OF run perm, of s] Some by simp
    ultimately show ?thesis using inn Some by simp
  qed
next
  assume dis: "set (map fst (undefined_syscalls st)) \<inter> set (map fst (syscalls st)) = {}"
  have keys: "set (map fst (syscalls st')) = set (map fst (syscalls st))"
    using process_syscall_keys [OF run perm] by simp
  have und: "\<And>k. k \<in> set (map fst (undefined_syscalls st')) \<longleftrightarrow>
               (k \<in> symbols_of jd \<and> k \<notin> set (map fst (syscalls st))) \<or>
               k \<in> set (map fst (undefined_syscalls st))"
  proof -
    fix k
    have "k \<in> set (map fst (undefined_syscalls st')) \<longleftrightarrow> map_of (undefined_syscalls st') k \<noteq> None"
      using map_of_keys [of "undefined_syscalls st'" k] by simp
    also have "\<dots> \<longleftrightarrow> (k \<in> symbols_of jd \<and> map_of (syscalls st) k = None) \<or>
                       map_of (undefined_syscalls st) k \<noteq> None"
      by (cases "k \<in> symbols_of jd \<and> map_of (syscalls st) k = None")
         (simp_all only: process_undefined [OF run perm, of k] if_True if_False
            option.distinct not_False_eq_True simp_thms)
    also have "\<dots> \<longleftrightarrow> (k \<in> symbols_of jd \<and> k \<notin> set (map fst (syscalls st))) \<or>
                       k \<in> set (map fst (undefined_syscalls st))"
      using map_of_keys [of "syscalls st" k] map_of_keys [of "undefined_syscalls st" k] by simp
    finally show "k \<in> set (map fst (undefined_syscalls st')) \<longleftrightarrow>
               (k \<in> symbols_of jd \<and> k \<notin> set (map fst (syscalls st))) \<or>
               k \<in> set (map fst (undefined_syscalls st))" .
  qed
  show "s \<in> set (map fst (undefined_syscalls st')) \<longleftrightarrow> s \<notin> set (map fst (syscalls st'))"
    using und [of s] keys dis sym by auto
  show "set (map fst (undefined_syscalls st')) \<inter> set (map fst (syscalls st')) = {}"
    using und keys dis by auto
qed

text \<open>
  C10. Let the two sections of a document be readable and the statuses of its symbols
  known. Processing the application returns a state, and for every symbol of the
  document exactly one of the two apps-list updates has been made: when the symbol is a
  key of the status table, the application's name has been appended to the apps list of
  its syscall record and the undefined-syscalls record of the symbol (if any) is as
  before; otherwise the table still has no record for it and the application's name has
  been appended to the apps list of its undefined-syscalls record. The linear search of
  the second loop finds a symbol exactly when the key test of the first loop holds. So,
  when no key of the table was an undefined syscall before, none is afterwards, and the
  symbol is a key of the undefined-syscalls dictionary if and only if it is not a key of
  the table.
\<close>

theorem apps_list_update_is_exclusive:
  assumes "collect_symbols jd = Inr syms"
    and "\<forall>xs. mset (iter xs) = mset xs"
    and "statuses_known (syscalls st) syms"
    and "s \<in> set syms"
  shows "\<exists>st'. process_application_json iter a jd st = Inr st' \<and>
     search_keys s (map fst (syscalls st)) = (s \<in> set (map fst (syscalls st))) \<and>
     (if s \<in> set (map fst (syscalls st))
      then (\<exists>r. map_of (syscalls st) s = Some r \<and>
                map_of (syscalls st') s = Some (r\<lparr>sc_apps := sc_apps r @ [a]\<rparr>)) \<and>
           map_of (undefined_syscalls st') s = map_of (undefined_syscalls st) s
      else map_of (syscalls st') s = None \<and>
           (\<exists>u. map_of (undefined_syscalls st') s = Some u \<and>
                us_apps u =
                  (case map_of (undefined_syscalls st) s of None \<Rightarrow> [] | Some u0 \<Rightarrow> us_apps u0)
                    @ [a])) \<and>
     (set (map fst (undefined_syscalls st)) \<inter> set (map fst (syscalls st)) = {} \<longrightarrow>
        (s \<in> set (map fst (undefined_syscalls st')) \<longleftrightarrow> s \<notin> set (map fst (syscalls st'))) \<and>
        set (map fst (undefined_syscalls st')) \<inter> set (map fst (syscalls st')) = {})"
proof -
  from process_application_json_succeeds [OF assms(1,2), of st a] assms(3)
  obtain st' where run: "process_application_json iter a jd st = Inr st'"
    by (auto simp: statuses_known_iff)
  have sym: "s \<in> symbols_of jd" using collect_symbols_Inr(2) [OF assms(1)] assms(4) by simp
  from run apps_list_update_of_run [OF run assms(2) sym]
  have "process_application_json iter a jd st = Inr st' \<and>
     search_keys s (map fst (syscalls st)) = (s \<in> set (map fst (syscalls st))) \<and>
     (if s \<in> set (map fst (syscalls st))
      then (\<exists>r. map_of (syscalls st) s = Some r \<and>
                map_of (syscalls st') s = Some (r\<lparr>sc_apps := sc_apps r @ [a]\<rparr>)) \<and>
           map_of (undefined_syscalls st') s = map_of (undefined_syscalls st) s
      else map_of (syscalls st') s = None \<and>
           (\<exists>u. map_of (undefined_syscalls st') s = Some u \<and>
                us_apps u =
                  (case map_of (undefined_syscalls st) s of None \<Rightarrow> [] | Some u0 \<Rightarrow> us_apps u0)
                    @ [a])) \<and>
     (set (map fst (undefined_syscalls st)) \<inter> set (map fst (syscalls st)) = {} \<longrightarrow>
        (s \<in> set (map fst (undefined_syscalls st')) \<longleftrightarrow> s \<notin> set (map fst (syscalls st'))) \<and>
        set (map fst (undefined_syscalls st')) \<inter> set (map fst (syscalls st')) = {})"
    by (rule conjI)
  then show ?thesis by - (rule exI [of _ st'], assumption)
qed

theorem apps_list_update_is_exclusive_witness:
  "process_application_json rev ''app1'' example_doc example_table = Inr example_processed \<and>
   search_keys ''brk'' (map fst (syscalls example_table)) \<and>
   map_of (syscalls example_processed) ''brk'' =
     Some \<lparr>sc_id = 12, sc_name = ''brk'', sc_status = ''OKAY'', sc_apps = [''app1'']\<rparr> \<and>
   map_of (undefined_syscalls example_processed) ''brk'' = None \<and>
   ''brk'' \<notin> set (map fst (undefined_syscalls example_processed))"
proof -
  have mem: "''brk'' \<in> set [''fork'', ''brk'', ''xyz_unknown'']" by simp
  have key: "''brk'' \<in> set (map fst (syscalls example_table))"
    by (simp add: example_table_def)
  have rec: "map_of (syscalls example_table) ''brk'' =
               Some \<lparr>sc_id = 12, sc_name = ''brk'', sc_status = ''OKAY'', sc_apps = []\<rparr>"
    by (simp add: example_table_def)
  have und: "map_of (undefined_syscalls example_table) ''brk'' = None"
    by (simp add: example_table_def)
  have dis: "set (map fst (undefined_syscalls example_table)) \<inter>
             set (map fst (syscalls example_table)) = {}"
    by (simp add: example_table_def)
  from apps_list_update_is_exclusive
         [OF example_doc_symbols rev_is_permutation example_table_statuses mem, of "''app1''"]
  obtain st' where
    r: "process_application_json rev ''app1'' example_doc example_table = Inr st'"
    and f: "search_keys ''brk'' (map fst (syscalls example_table)) =
              (''brk'' \<in> set (map fst (syscalls example_table)))"
    and u: "if ''brk'' \<in> set (map fst (syscalls example_table))
      then (\<exists>r. map_of (syscalls example_table) ''brk'' = Some r \<and>
                map_of (syscalls st') ''brk'' = Some (r\<lparr>sc_apps := sc_apps r @ [''app1'']\<rparr>)) \<and>
           map_of (undefined_syscalls st') ''brk'' = map_of (undefined_syscalls example_table) ''brk''
      else map_of (syscalls st') ''brk'' = None \<and>
           (\<exists>u. map_of (undefined_syscalls st') ''brk'' = Some u \<and>
                us_apps u =
                  (case map_of (undefined_syscalls example_table) ''brk'' of
                     None \<Rightarrow> [] | Some u0 \<Rightarrow> us_apps u0) @ [''app1''])"
    and i: "set (map fst (undefined_syscalls example_table)) \<inter>
              set (map fst (syscalls example_table)) = {} \<longrightarrow>
        (''brk'' \<in> set (map fst (undefined_syscalls st')) \<longleftrightarrow>
           ''brk'' \<notin> set (map fst (syscalls st'))) \<and>
        set (map fst (undefined_syscalls st')) \<inter> set (map fst (syscalls st')) = {}"
    by (elim exE conjE)
  from r have st': "st' = example_processed" by (simp add: example_processed_run)
  from f key have c1: "search_keys ''brk'' (map fst (syscalls example_table))" by simp
  from u key rec have c2: "map_of (syscalls example_processed) ''brk'' =
     Some \<lparr>sc_id = 12, sc_name = ''brk'', sc_status = ''OKAY'', sc_apps = [''app1'']\<rparr>"
    unfolding st' by auto
  from u key und have c3: "map_of (undefined_syscalls example_processed) ''brk'' = None"
    unfolding st' by auto
  from c2 have "''brk'' \<in> set (map fst (syscalls example_processed))"
    using map_of_keys [of "syscalls example_processed" "''brk''"] by simp
  with i dis have c4: "''brk'' \<notin> set (map fst (undefined_syscalls example_processed))"
    unfolding st' by simp
  from example_processed_run c1 c2 c3 c4 show ?thesis by (intro conjI)
qed

subsection \<open>The application dictionary\<close>

lemma record_app_apps: "record_app a s st = Inr st' \<Longrightarrow> apps st' = apps st"
  by (auto simp: record_app_eq split: option.splits)

lemma process_apps_keys:
  assumes run: "process_application_json iter a jd st = Inr st'"
  shows "\<exists>b. apps st' = AList.update a b (apps st) \<and> map fst b = status_keys"
proof -
  let ?st0 = "st\<lparr>apps := AList.update a empty_buckets (apps st)\<rparr>"
  from run obtain syms st2 where
    p: "for_each (place_symbol a) (iter syms) ?st0 = Inr st2"
    and r: "for_each (record_app a) (iter syms) st2 = Inr st'"
    by (auto simp: process_application_json_def bind_exn_Inr_iff)
  have m0: "map_of (apps ?st0) a = Some empty_buckets" by (simp add: update_conv')
  have ok: "\<forall>s \<in> set (iter syms). map_of empty_buckets (lookup_status (syscalls ?st0) s) \<noteq> None"
  proof (rule ccontr)
    assume "\<not> ?thesis"
    then have "find (\<lambda>s. map_of empty_buckets (lookup_status (syscalls ?st0) s) = None) (iter syms)
                 \<noteq> None"
      by (auto simp: find_None_iff)
    then obtain s' where
      "find (\<lambda>s. map_of empty_buckets (lookup_status (syscalls ?st0) s) = None) (iter syms) = Some s'"
      by auto
    from place_loop_fails [OF m0 this] p show False by simp
  qed
  from place_loop_succeeds [OF m0 ok] obtain b where
    p': "for_each (place_symbol a) (iter syms) ?st0 = Inr (?st0\<lparr>apps := AList.update a b (apps ?st0)\<rparr>)"
    and kb: "map fst b = map fst empty_buckets"
    by blast
  have st2: "apps st2 = AList.update a b (apps st)" using p p' by auto
  have "apps st' = apps st2"
    by (rule for_each_invariant [where P = "\<lambda>s. apps s = apps st2", OF r])
       (simp_all add: record_app_apps)
  then have "apps st' = AList.update a b (apps st) \<and> map fst b = status_keys"
    using st2 kb by (simp add: keys_empty_buckets)
  then show ?thesis by (rule exI [of _ b])
qed

lemma walk_apps_wellformed:
  assumes run: "walk_application_json_folder iter files st = Inr st'"
    and wf: "distinct (map fst (apps st)) \<and> (\<forall>e \<in> set (apps st). map fst (snd e) = status_keys)"
  shows "distinct (map fst (apps st')) \<and> (\<forall>e \<in> set (apps st'). map fst (snd e) = status_keys)"
proof (rule for_each_invariant
        [where P = "\<lambda>s. distinct (map fst (apps s)) \<and>
                          (\<forall>e \<in> set (apps s). map fst (snd e) = status_keys)",
         OF run [unfolded walk_application_json_folder_def] wf])
  fix e :: "string \<times> json_data" and s s' :: state
  assume inv: "distinct (map fst (apps s)) \<and> (\<forall>e \<in> set (apps s). map fst (snd e) = status_keys)"
    and step: "walk_step iter e s = Inr s'"
  show "distinct (map fst (apps s')) \<and> (\<forall>e \<in> set (apps s'). map fst (snd e) = status_keys)"
  proof (cases "suffix ''.json'' (fst e)")
    case False
    then have "s' = s" using step by (simp add: walk_step_def)
    then show ?thesis using inv by simp
  next
    case True
    then have "process_application_json iter (take (length (fst e) - 5) (fst e)) (snd e) s = Inr s'"
      using step by (simp add: walk_step_def)
    from process_apps_keys [OF this] obtain b where
      ap: "apps s' = AList.update (take (length (fst e) - 5) (fst e)) b (apps s)"
      and kb: "map fst b = status_keys"
      by blast
    have "distinct (map fst (apps s'))" using inv by (simp add: ap distinct_update)
    moreover have "\<forall>x \<in> set (apps s'). map fst (snd x) = status_keys"
      using inv kb set_update_subset [of "take (length (fst e) - 5) (fst e)" b "apps s"]
      unfolding ap by fastforce
    ultimately show ?thesis by simp
  qed
qed

subsection \<open>The application report\<close>

lemma map_exn_keys:
  "\<forall>e \<in> set d. f (fst e) = Inr (g e) \<Longrightarrow> map_exn f (map fst d) = Inr (map g d)"
  by (induction d) simp_all

lemma bucket_len_eq:
  assumes "map_of d a = Some b" and "k \<in> set (map fst b)"
  shows "bucket_len d a k = Inr (blen b k)"
proof -
  from assms(2) obtain l where "map_of b k = Some l"
    using map_of_keys [of b k] by (cases "map_of b k") auto
  then show ?thesis using assms(1)
    by (simp add: bucket_len_def dict_get_def blen_def bucket_of_def)
qed

lemma app_row_eq:
  assumes d: "map_of d a = Some b" and k: "map fst b = status_keys"
  shows "app_row d a =
     Inr (csv [a,
               str_nat (blen b ''OKAY'' + blen b ''NOT_IMPL'' + blen b ''INCOMPLETE'' +
                        blen b ''REG_MISS'' + blen b ''STUBBED'' + blen b ''PLANNED'' +
                        blen b ''IN_PROGRESS'' + blen b ''BROKEN''),
               str_nat (blen b ''OKAY''), str_nat (blen b ''NOT_IMPL''),
               str_nat (blen b ''REG_MISS''), str_nat (blen b ''INCOMPLETE''),
               str_nat (blen b ''STUBBED''), str_nat (blen b ''PLANNED''),
               str_nat (blen b ''BROKEN''), str_nat (blen b ''IN_PROGRESS''),
               str_nat (blen b ''ABSENT'')])"
proof -
  have len: "\<And>key. key \<in> set status_keys \<Longrightarrow> bucket_len d a key = Inr (blen b key)"
    using bucket_len_eq [OF d] k by simp
  have keys: "''OKAY'' \<in> set status_keys" "''NOT_IMPL'' \<in> set status_keys"
    "''INCOMPLETE'' \<in> set status_keys" "''REG_MISS'' \<in> set status_keys"
    "''STUBBED'' \<in> set status_keys" "''PLANNED'' \<in> set status_keys"
    "''IN_PROGRESS'' \<in> set status_keys" "''BROKEN'' \<in> set status_keys"
    "''ABSENT'' \<in> set status_keys"
    by (simp_all add: status_keys_def)
  show ?thesis
    unfolding app_row_def app_total_def
    by (simp only: len [OF keys(1)] len [OF keys(2)] len [OF keys(3)] len [OF keys(4)]
          len [OF keys(5)] len [OF keys(6)] len [OF keys(7)] len [OF keys(8)]
          len [OF keys(9)] bind_exn.simps)
qed

lemma print_apps_eq:
  assumes "distinct (map fst (apps st))"
    and "\<forall>e \<in> set (apps st). map fst (snd e) = status_keys"
  shows "print_apps st =
     Inr (apps_header #
          map (\<lambda>e. csv [fst e,
               str_nat (blen (snd e) ''OKAY'' + blen (snd e) ''NOT_IMPL'' +
                        blen (snd e) ''INCOMPLETE'' + blen (snd e) ''REG_MISS'' +
                        blen (snd e) ''STUBBED'' + blen (snd e) ''PLANNED'' +
                        blen (snd e) ''IN_PROGRESS'' + blen (snd e) ''BROKEN''),
               str_nat (blen (snd e) ''OKAY''), str_nat (blen (snd e) ''NOT_IMPL''),
               str_nat (blen (snd e) ''REG_MISS''), str_nat (blen (snd e) ''INCOMPLETE''),
               str_nat (blen (snd e) ''STUBBED''), str_nat (blen (snd e) ''PLANNED''),
               str_nat (blen (snd e) ''BROKEN''), str_nat (blen (snd e) ''IN_PROGRESS''),
               str_nat (blen (snd e) ''ABSENT'')])
            (apps st))"
proof -
  have "map_exn (app_row (apps st)) (map fst (apps st)) =
     Inr (map (\<lambda>e. csv [fst e,
               str_nat (blen (snd e) ''OKAY'' + blen (snd e) ''NOT_IMPL'' +
                        blen (snd e) ''INCOMPLETE'' + blen (snd e) ''REG_MISS'' +
                        blen (snd e) ''STUBBED'' + blen (snd e) ''PLANNED'' +
                        blen (snd e) ''IN_PROGRESS'' + blen (snd e) ''BROKEN''),
               str_nat (blen (snd e) ''OKAY''), str_nat (blen (snd e) ''NOT_IMPL''),
               str_nat (blen (snd e) ''REG_MISS''), str_nat (blen (snd e) ''INCOMPLETE''),
               str_nat (blen (snd e) ''STUBBED''), str_nat (blen (snd e) ''PLANNED''),
               str_nat (blen (snd e) ''BROKEN''), str_nat (blen (snd e) ''IN_PROGRESS''),
               str_nat (blen (snd e) ''ABSENT'')])
            (apps st))"
  proof (rule map_exn_keys, rule ballI)
    fix e assume e: "e \<in> set (apps st)"
    then have "(fst e, snd e) \<in> set (apps st)" by simp
    then have m: "map_of (apps st) (fst e) = Some (snd e)"
      using assms(1) by (simp only: map_of_eq_Some_iff)
    have k: "map fst (snd e) = status_keys" using assms(2) e by blast
    show "app_row (apps st) (fst e) =
       Inr (csv [fst e,
               str_nat (blen (snd e) ''OKAY'' + blen (snd e) ''NOT_IMPL'' +
                        blen (snd e) ''INCOMPLETE'' + blen (snd e) ''REG_MISS'' +
                        blen (snd e) ''STUBBED'' + blen (snd e) ''PLANNED'' +
                        blen (snd e) ''IN_PROGRESS'' + blen (snd e) ''BROKEN''),
               str_nat (blen (snd e) ''OKAY''), str_nat (blen (snd e) ''NOT_IMPL''),
               str_nat (blen (snd e) ''REG_MISS''), str_nat (blen (snd e) ''INCOMPLETE''),
               str_nat (blen (snd e) ''STUBBED''), str_nat (blen (snd e) ''PLANNED''),
               str_nat (blen (snd e) ''BROKEN''), str_nat (blen (snd e) ''IN_PROGRESS''),
               str_nat (blen (snd e) ''ABSENT'')])"
      by (rule app_row_eq [OF m k])
  qed
  then show ?thesis by (simp only: print_apps_def bind_exn.simps)
qed

lemma example_report:
  "print_apps example_state =
     Inr [''app,total,okay,not_impl,reg_miss,incomplete,stubbed,planned,broken,in_progress,absent'',
          ''app1,2,1,1,0,0,0,0,0,0,0'',
          ''app2,1,1,0,0,0,0,0,0,0,1'']"
  by code_simp

text \<open>
  C1, as stated, fails. In the example run the second application references
  \<^verbatim>\<open>brk\<close> (OKAY) and \<^verbatim>\<open>xyz_unknown\<close> (not in the table): its nine buckets hold two
  symbols, and its row is printed with total 1.
\<close>

theorem print_apps_total_omits_absent:
  "aggregate (\<lambda>s. None) rev example_worksheet example_files = Inr example_state \<and>
   print_apps example_state =
     Inr [''app,total,okay,not_impl,reg_miss,incomplete,stubbed,planned,broken,in_progress,absent'',
          ''app1,2,1,1,0,0,0,0,0,0,0'',
          ''app2,1,1,0,0,0,0,0,0,0,1''] \<and>
   map_of (apps example_state) ''app2'' =
     Some [(''OKAY'', [''brk'']), (''ABSENT'', [''xyz_unknown'']), (''NOT_IMPL'', []),
           (''INCOMPLETE'', []), (''REG_MISS'', []), (''STUBBED'', []), (''BROKEN'', []),
           (''IN_PROGRESS'', []), (''PLANNED'', [])] \<and>
   sum_list (map (blen [(''OKAY'', [''brk'']), (''ABSENT'', [''xyz_unknown'']), (''NOT_IMPL'', []),
                        (''INCOMPLETE'', []), (''REG_MISS'', []), (''STUBBED'', []),
                        (''BROKEN'', []), (''IN_PROGRESS'', []), (''PLANNED'', [])])
               status_keys) = 2"
proof (intro conjI)
  show "aggregate (\<lambda>s. None) rev example_worksheet example_files = Inr example_state"
    by (rule example_run)
  show "print_apps example_state =
     Inr [''app,total,okay,not_impl,reg_miss,incomplete,stubbed,planned,broken,in_progress,absent'',
          ''app1,2,1,1,0,0,0,0,0,0,0'',
          ''app2,1,1,0,0,0,0,0,0,0,1'']"
    by (rule example_report)
  show "map_of (apps example_state) ''app2'' =
     Some [(''OKAY'', [''brk'']), (''ABSENT'', [''xyz_unknown'']), (''NOT_IMPL'', []),
           (''INCOMPLETE'', []), (''REG_MISS'', []), (''STUBBED'', []), (''BROKEN'', []),
           (''IN_PROGRESS'', []), (''PLANNED'', [])]"
    by (simp add: example_state_def)
  show "sum_list (map (blen [(''OKAY'', [''brk'']), (''ABSENT'', [''xyz_unknown'']), (''NOT_IMPL'', []),
                        (''INCOMPLETE'', []), (''REG_MISS'', []), (''STUBBED'', []),
                        (''BROKEN'', []), (''IN_PROGRESS'', []), (''PLANNED'', [])])
               status_keys) = 2"
    by (simp add: blen_def bucket_of_def status_keys_def)
qed

text \<open>
  C1, amended. In the app report of a run, after the header there is one row per
  application, in the order of the dictionary, and its total column is the sum of the
  eight bucket counts other than absent (okay, not\_impl, incomplete, reg\_miss,
  stubbed, planned, in\_progress, broken), followed by the nine counts in the order of
  the header; the absent count is printed but is not part of the total.
\<close>

theorem print_apps_total_is_sum_of_eight:
  assumes "aggregate str_to_int iter worksheet files = Inr st"
  shows "print_apps st =
     Inr (apps_header #
          map (\<lambda>e. csv [fst e,
               str_nat (blen (snd e) ''OKAY'' + blen (snd e) ''NOT_IMPL'' +
                        blen (snd e) ''INCOMPLETE'' + blen (snd e) ''REG_MISS'' +
                        blen (snd e) ''STUBBED'' + blen (snd e) ''PLANNED'' +
                        blen (snd e) ''IN_PROGRESS'' + blen (snd e) ''BROKEN''),
               str_nat (blen (snd e) ''OKAY''), str_nat (blen (snd e) ''NOT_IMPL''),
               str_nat (blen (snd e) ''REG_MISS''), str_nat (blen (snd e) ''INCOMPLETE''),
               str_nat (blen (snd e) ''STUBBED''), str_nat (blen (snd e) ''PLANNED''),
               str_nat (blen (snd e) ''BROKEN''), str_nat (blen (snd e) ''IN_PROGRESS''),
               str_nat (blen (snd e) ''ABSENT'')])
            (apps st))"
proof -
  from assms obtain d where
    w: "walk_application_json_folder iter files
          \<lparr>apps = [], syscalls = d, undefined_syscalls = []\<rparr> = Inr st"
    by (auto simp: aggregate_def bind_exn_Inr_iff)
  have "distinct (map fst (apps st)) \<and> (\<forall>e \<in> set (apps st). map fst (snd e) = status_keys)"
    by (rule walk_apps_wellformed [OF w]) simp
  then show ?thesis using print_apps_eq [of st] by blast
qed

theorem print_apps_total_is_sum_of_eight_witness:
  "aggregate (\<lambda>s. None) rev example_worksheet example_files = Inr example_state \<and>
   print_apps example_state =
     Inr (apps_header # [''app1,2,1,1,0,0,0,0,0,0,0'', ''app2,1,1,0,0,0,0,0,0,0,1''])"
proof -
  have "print_apps example_state =
     Inr (apps_header #
          map (\<lambda>e. csv [fst e,
               str_nat (blen (snd e) ''OKAY'' + blen (snd e) ''NOT_IMPL'' +
                        blen (snd e) ''INCOMPLETE'' + blen (snd e) ''REG_MISS'' +
                        blen (snd e) ''STUBBED'' + blen (snd e) ''PLANNED'' +
                        blen (snd e) ''IN_PROGRESS'' + blen (snd e) ''BROKEN''),
               str_nat (blen (snd e) ''OKAY''), str_nat (blen (snd e) ''NOT_IMPL''),
               str_nat (blen (snd e) ''REG_MISS''), str_nat (blen (snd e) ''INCOMPLETE''),
               str_nat (blen (snd e) ''STUBBED''), str_nat (blen (snd e) ''PLANNED''),
               str_nat (blen (snd e) ''BROKEN''), str_nat (blen (snd e) ''IN_PROGRESS''),
               str_nat (blen (snd e) ''ABSENT'')])
            (apps example_state))"
    by (rule print_apps_total_is_sum_of_eight [OF example_run])
  also have "map (\<lambda>e. csv [fst e,
               str_nat (blen (snd e) ''OKAY'' + blen (snd e) ''NOT_IMPL'' +
                        blen (snd e) ''INCOMPLETE'' + blen (snd e) ''REG_MISS'' +
                        blen (snd e) ''STUBBED'' + blen (snd e) ''PLANNED'' +
                        blen (snd e) ''IN_PROGRESS'' + blen (snd e) ''BROKEN''),
               str_nat (blen (snd e) ''OKAY''), str_nat (blen (snd e) ''NOT_IMPL''),
               str_nat (blen (snd e) ''REG_MISS''), str_nat (blen (snd e) ''INCOMPLETE''),
               str_nat (blen (snd e) ''STUBBED''), str_nat (blen (snd e) ''PLANNED''),
               str_nat (blen (snd e) ''BROKEN''), str_nat (blen (snd e) ''IN_PROGRESS''),
               str_nat (blen (snd e) ''ABSENT'')])
            (apps example_state) =
          [''app1,2,1,1,0,0,0,0,0,0,0'', ''app2,1,1,0,0,0,0,0,0,0,1'']"
    by (simp add: example_state_def blen_def bucket_of_def str_nat.simps digit_char_def)
  finally show ?thesis using example_run by simp
qed

subsection \<open>A run that loads no application\<close>

lemma sheet_columns_same_length:
  assumes "process_syscall_spreadsheet str_to_int worksheet = Inr ds"
  shows "length (ds_name ds) = length (ds_rax ds) \<and> length (ds_status ds) = length (ds_rax ds)"
proof (rule for_each_invariant
        [where P = "\<lambda>ds. length (ds_name ds) = length (ds_rax ds) \<and>
                           length (ds_status ds) = length (ds_rax ds)",
         OF assms [unfolded process_syscall_spreadsheet_def]])
  show "length (ds_name \<lparr>ds_rax = [], ds_name = [], ds_status = []\<rparr>) =
          length (ds_rax \<lparr>ds_rax = [], ds_name = [], ds_status = []\<rparr>) \<and>
        length (ds_status \<lparr>ds_rax = [], ds_name = [], ds_status = []\<rparr>) =
          length (ds_rax \<lparr>ds_rax = [], ds_name = [], ds_status = []\<rparr>)"
    by simp
next
  fix row :: sheet_row and s s' :: data_sheet
  assume "length (ds_name s) = length (ds_rax s) \<and> length (ds_status s) = length (ds_rax s)"
    and "sheet_row_step str_to_int row s = Inr s'"
  then show "length (ds_name s') = length (ds_rax s') \<and> length (ds_status s') = length (ds_rax s')"
    by (auto simp: sheet_row_step_def bind_exn_Inr_iff)
qed

lemma add_syscall_loop:
  assumes "n \<le> length (ds_rax ds)" and "n \<le> length (ds_name ds)"
    and "n \<le> length (ds_status ds)"
  shows "\<exists>d'. for_each (add_syscall ds) [0 ..< n] d = Inr d'"
  using assms
proof (induction n)
  case 0
  show ?case by simp
next
  case (Suc n)
  then obtain d1 where run: "for_each (add_syscall ds) [0 ..< n] d = Inr d1" by auto
  have "\<exists>d'. add_syscall ds n d1 = Inr d'"
    using Suc.prems by (simp add: add_syscall_def py_index_def)
  then obtain d' where "add_syscall ds n d1 = Inr d'" by blast
  then show ?case by (simp add: for_each_append run)
qed

lemma build_syscalls_succeeds:
  assumes "process_syscall_spreadsheet str_to_int worksheet = Inr ds"
  shows "\<exists>d. build_syscalls ds = Inr d"
  unfolding build_syscalls_def
  using sheet_columns_same_length [OF assms] by (intro add_syscall_loop) simp_all

text \<open>
  C8. When a run loads no application file (the folder has no file whose name ends in
  \<^verbatim>\<open>.json\<close>) and no id cell of the sheet is an infinite float, the aggregation
  returns a state in which every syscall record has an empty apps list, the
  undefined-syscalls dictionary and the application dictionary are empty, and the app
  report is the header row alone.
\<close>

theorem no_application_loaded:
  assumes "loaded files = []"
    and "\<forall>row \<in> set (drop 1 worksheet).
           col_rax row \<noteq> XL_NUMBER PosInf \<and> col_rax row \<noteq> XL_NUMBER NegInf"
  shows "\<exists>st. aggregate str_to_int iter worksheet files = Inr st \<and>
              (\<forall>e \<in> set (syscalls st). sc_apps (snd e) = []) \<and>
              undefined_syscalls st = [] \<and> apps st = [] \<and>
              print_apps st = Inr [apps_header]"
proof -
  from process_syscall_spreadsheet_ids [OF assms(2), of str_to_int] obtain ds where
    sheet: "process_syscall_spreadsheet str_to_int worksheet = Inr ds" by blast
  from build_syscalls_succeeds [OF sheet] obtain d where
    build: "build_syscalls ds = Inr d" by blast
  let ?st = "\<lparr>apps = [], syscalls = d, undefined_syscalls = []\<rparr>"
  have run: "aggregate str_to_int iter worksheet files = Inr ?st"
    by (simp add: aggregate_def sheet build walk_nothing_loaded [OF assms(1)])
  have none: "\<forall>e \<in> set (syscalls ?st). sc_apps (snd e) = []"
    using build_syscalls_no_apps [OF build] by simp
  have report: "print_apps ?st = Inr [apps_header]"
    by (simp add: print_apps_def)
  have "aggregate str_to_int iter worksheet files = Inr ?st \<and>
              (\<forall>e \<in> set (syscalls ?st). sc_apps (snd e) = []) \<and>
              undefined_syscalls ?st = [] \<and> apps ?st = [] \<and>
              print_apps ?st = Inr [apps_header]"
    using run none report by simp
  then show ?thesis by (rule exI [of _ ?st])
qed

lemma example_run_without_applications:
  "aggregate (\<lambda>s. None) rev example_worksheet
     [(''notes.txt'', \<lparr>static_data = None, dynamic_data = None\<rparr>)] = Inr example_table"
  by code_simp

theorem no_application_loaded_witness:
  "aggregate (\<lambda>s. None) rev example_worksheet
     [(''notes.txt'', \<lparr>static_data = None, dynamic_data = None\<rparr>)] = Inr example_table \<and>
   map (\<lambda>e. sc_apps (snd e)) (syscalls example_table) = [[], []] \<and>
   undefined_syscalls example_table = [] \<and>
   print_apps example_table =
     Inr [''app,total,okay,not_impl,reg_miss,incomplete,stubbed,planned,broken,in_progress,absent'']"
proof -
  have no_json: "loaded [(''notes.txt'', \<lparr>static_data = None, dynamic_data = None\<rparr>)] = []"
    by (simp add: loaded_def suffix_def)
  have cells: "\<forall>row \<in> set (drop 1 example_worksheet).
           col_rax row \<noteq> XL_NUMBER PosInf \<and> col_rax row \<noteq> XL_NUMBER NegInf"
    by (simp add: example_worksheet_def)
  from no_application_loaded [OF no_json cells, of "\<lambda>s. None" rev] obtain st where
    r: "aggregate (\<lambda>s. None) rev example_worksheet
          [(''notes.txt'', \<lparr>static_data = None, dynamic_data = None\<rparr>)] = Inr st"
    and u: "undefined_syscalls st = []"
    and p: "print_apps st = Inr [apps_header]"
    by (elim exE conjE)
  from r have st: "st = example_table" by (simp add: example_run_without_applications)
  have hdr: "apps_header =
    ''app,total,okay,not_impl,reg_miss,incomplete,stubbed,planned,broken,in_progress,absent''"
    by (simp add: apps_header_def)
  have c2: "map (\<lambda>e. sc_apps (snd e)) (syscalls example_table) = [[], []]"
    by (simp add: example_table_def)
  from u have c3: "undefined_syscalls example_table = []" unfolding st .
  from p have c4: "print_apps example_table =
     Inr [''app,total,okay,not_impl,reg_miss,incomplete,stubbed,planned,broken,in_progress,absent'']"
    unfolding st hdr .
  from example_run_without_applications c2 c3 c4 show ?thesis by (intro conjI)
qed

end
